theory Spec2Isabelle
  imports Complex_Main "HOL-Library.Sublist" "HOL-Library.Multiset"
begin

section \<open>JavaScript values\<close>

text \<open>
  The query engine \<^verbatim>\<open>DataService<T extends BaseEntity>\<close> of
  \<^verbatim>\<open>utils/classes\<close> works on open records (\<^verbatim>\<open>[key: string]: unknown\<close>), so
  attribute values are JavaScript values. The universe modelled here is the one
  the repository's entities and JSON fixtures use: \<^verbatim>\<open>undefined\<close>, \<^verbatim>\<open>null\<close>,
  booleans, numbers, strings, \<^verbatim>\<open>Date\<close> objects, and the functions that an entity
  inherits as methods.

  A number is an IEEE double; every finite double is a rational, so a number is
  a rational or one of \<^verbatim>\<open>Infinity\<close>, \<^verbatim>\<open>-Infinity\<close>, \<^verbatim>\<open>NaN\<close> (\<^verbatim>\<open>-0\<close> and \<^verbatim>\<open>0\<close>
  are equal under \<^verbatim>\<open>===\<close> and \<^verbatim>\<open><\<close> and are not distinguished).
  A string is a list of code units; the functions on strings below are those of
  ECMAScript on the ASCII alphabet. A \<^verbatim>\<open>Date\<close> is an object: it has an identity
  (its address) and a time value. A function is an object too: it has an identity
  and the text that its \<^verbatim>\<open>toString\<close> gives.
\<close>

datatype jsnum = Fin rat | PosInf | NegInf | NaN

type_synonym addr = nat

datatype date = Date addr jsnum

datatype jsval =
    VUndefined
  | VNull
  | VBool bool
  | VNum jsnum
  | VStr string
  | VDate date
  | VFunction addr string

text \<open>\<^verbatim>\<open>typeof v === 'string'\<close>\<close>

fun is_string :: "jsval \<Rightarrow> bool" where
  "is_string (VStr s) = True"
| "is_string v = False"

text \<open>The result of \<^verbatim>\<open>typeof\<close>.\<close>

fun typeof :: "jsval \<Rightarrow> string" where
  "typeof VUndefined = ''undefined''"
| "typeof VNull = ''object''"
| "typeof (VBool b) = ''boolean''"
| "typeof (VNum n) = ''number''"
| "typeof (VStr s) = ''string''"
| "typeof (VDate d) = ''object''"
| "typeof (VFunction a s) = ''function''"

text \<open>Number comparison: \<^verbatim>\<open>NaN\<close> is neither less than, greater than nor equal to anything.\<close>

fun num_lt :: "jsnum \<Rightarrow> jsnum \<Rightarrow> bool" where
  "num_lt (Fin a) (Fin b) = (a < b)"
| "num_lt (Fin a) PosInf = True"
| "num_lt NegInf (Fin b) = True"
| "num_lt NegInf PosInf = True"
| "num_lt x y = False"

fun num_eq :: "jsnum \<Rightarrow> jsnum \<Rightarrow> bool" where
  "num_eq (Fin a) (Fin b) = (a = b)"
| "num_eq PosInf PosInf = True"
| "num_eq NegInf NegInf = True"
| "num_eq x y = False"

text \<open>
  Strict equality \<^verbatim>\<open>a === b\<close>: values of different types are never equal,
  \<^verbatim>\<open>NaN\<close> is not equal to itself, objects are equal when they are the same object.
\<close>

fun strict_eq :: "jsval \<Rightarrow> jsval \<Rightarrow> bool" where
  "strict_eq VUndefined VUndefined = True"
| "strict_eq VNull VNull = True"
| "strict_eq (VBool a) (VBool b) = (a = b)"
| "strict_eq (VNum a) (VNum b) = num_eq a b"
| "strict_eq (VStr a) (VStr b) = (a = b)"
| "strict_eq (VDate (Date a s)) (VDate (Date b t)) = (a = b)"
| "strict_eq (VFunction a s) (VFunction b t) = (a = b)"
| "strict_eq x y = False"

text \<open>Comparison of strings by \<^verbatim>\<open><\<close>: lexicographic on the code units.\<close>

fun str_lt :: "string \<Rightarrow> string \<Rightarrow> bool" where
  "str_lt [] [] = False"
| "str_lt [] (y # ys) = True"
| "str_lt (x # xs) [] = False"
| "str_lt (x # xs) (y # ys) =
     ((of_char x :: nat) < of_char y \<or> (x = y \<and> str_lt xs ys))"

text \<open>
  \<^verbatim>\<open>ToPrimitive\<close> with hint number: a \<^verbatim>\<open>Date\<close> gives its time value
  (\<^verbatim>\<open>valueOf\<close>), a function its text (its \<^verbatim>\<open>valueOf\<close> is the function itself, so
  \<^verbatim>\<open>toString\<close> is taken), a primitive is itself.
\<close>

fun to_primitive :: "jsval \<Rightarrow> jsval" where
  "to_primitive (VDate (Date a t)) = VNum t"
| "to_primitive (VFunction a s) = VStr s"
| "to_primitive v = v"

text \<open>
  \<^verbatim>\<open>ToNumber\<close> on a primitive. The number a string denotes
  (\<^verbatim>\<open>StringToNumber\<close> of ECMAScript) is the parameter \<open>tn\<close> of the model:
  every theorem below holds for every choice of it.
\<close>

fun to_number :: "(string \<Rightarrow> jsnum) \<Rightarrow> jsval \<Rightarrow> jsnum" where
  "to_number tn VUndefined = NaN"
| "to_number tn VNull = Fin 0"
| "to_number tn (VBool b) = Fin (if b then 1 else 0)"
| "to_number tn (VNum n) = n"
| "to_number tn (VStr s) = tn s"
| "to_number tn (VDate (Date a t)) = t"
| "to_number tn (VFunction a s) = tn s"

text \<open>
  The relational operators \<^verbatim>\<open>a < b\<close> and \<^verbatim>\<open>a > b\<close>: both operands are made
  primitive; two strings are compared as strings, anything else as numbers. An
  undefined comparison (a \<^verbatim>\<open>NaN\<close> operand) is \<^verbatim>\<open>false\<close>.
\<close>

definition js_lt :: "(string \<Rightarrow> jsnum) \<Rightarrow> jsval \<Rightarrow> jsval \<Rightarrow> bool" where
  "js_lt tn a b =
     (case (to_primitive a, to_primitive b) of
        (VStr s, VStr t) \<Rightarrow> str_lt s t
      | (x, y) \<Rightarrow> num_lt (to_number tn x) (to_number tn y))"

definition js_gt :: "(string \<Rightarrow> jsnum) \<Rightarrow> jsval \<Rightarrow> jsval \<Rightarrow> bool" where
  "js_gt tn a b = js_lt tn b a"

subsection \<open>Arithmetic of doubles\<close>

text \<open>
  The result of an arithmetic operation is the exact result rounded to the
  nearest double, ties to the even significand (IEEE 754 binary64: 53 bits of
  significand, exponents from -1022 to 1023, subnormal numbers below, \<^verbatim>\<open>Infinity\<close>
  from \<open>2 ^ 1024\<close>). The sign of zero is not modelled: \<^verbatim>\<open>-0\<close> is \<open>0\<close>, which
  it equals under every operation used here except as a divisor.
\<close>

text \<open>Rounding a rational to the nearest whole number, a tie to the even one.\<close>

definition round_half_even :: "rat \<Rightarrow> int" where
  "round_half_even m =
     (let f = \<lfloor>m\<rfloor>; d = m - of_int f
      in if d < 1 / 2 then f else if 1 / 2 < d then f + 1
         else if even f then f else f + 1)"

text \<open>
  The binary exponent of a positive rational \<open>x\<close>, the \<open>e\<close> with
  \<open>2 ^ e \<le> x < 2 ^ (e + 1)\<close>, found by halving or doubling at most \<open>n\<close> times.
\<close>

fun binary_exponent :: "nat \<Rightarrow> rat \<Rightarrow> int" where
  "binary_exponent 0 x = 0"
| "binary_exponent (Suc n) x =
     (if 2 \<le> x then binary_exponent n (x / 2) + 1
      else if x < 1 then binary_exponent n (2 * x) - 1
      else 0)"

text \<open>
  The double nearest to a positive rational. The unit in the last place is
  \<open>2 ^ (e - 52)\<close> for the exponent \<open>e\<close>, and \<open>2 ^ (- 1074)\<close> for a subnormal number.
\<close>

definition overflow :: rat where
  "overflow = 2 ^ 1024"

definition round_pos :: "rat \<Rightarrow> jsnum" where
  "round_pos x =
     (let e = max (binary_exponent 1100 x) (- 1022);
          ulp = 2 powi (e - 52);
          y = of_int (round_half_even (x / ulp)) * ulp
      in if overflow \<le> y then PosInf else Fin y)"

fun neg_num :: "jsnum \<Rightarrow> jsnum" where
  "neg_num (Fin a) = Fin (- a)"
| "neg_num PosInf = NegInf"
| "neg_num NegInf = PosInf"
| "neg_num NaN = NaN"

definition to_double :: "rat \<Rightarrow> jsnum" where
  "to_double x =
     (if x = 0 then Fin 0 else if 0 < x then round_pos x else neg_num (round_pos (- x)))"

text \<open>A number is a double when rounding leaves it as it is.\<close>

fun is_double :: "jsnum \<Rightarrow> bool" where
  "is_double (Fin a) = (to_double a = Fin a)"
| "is_double x = True"

text \<open>\<^verbatim>\<open>a + b\<close>, \<^verbatim>\<open>a - b\<close>, \<^verbatim>\<open>a * b\<close> and \<^verbatim>\<open>a / b\<close> on numbers.\<close>

fun js_add :: "jsnum \<Rightarrow> jsnum \<Rightarrow> jsnum" where
  "js_add (Fin a) (Fin b) = to_double (a + b)"
| "js_add NaN y = NaN"
| "js_add x NaN = NaN"
| "js_add PosInf NegInf = NaN"
| "js_add NegInf PosInf = NaN"
| "js_add PosInf y = PosInf"
| "js_add NegInf y = NegInf"
| "js_add x PosInf = PosInf"
| "js_add x NegInf = NegInf"

definition js_sub :: "jsnum \<Rightarrow> jsnum \<Rightarrow> jsnum" where
  "js_sub a b = js_add a (neg_num b)"

text \<open>The product and the quotient of an infinity and a finite number, by its sign.\<close>

definition inf_times :: "jsnum \<Rightarrow> rat \<Rightarrow> jsnum" where
  "inf_times i a = (if a = 0 then NaN else if 0 < a then i else neg_num i)"

fun js_mul :: "jsnum \<Rightarrow> jsnum \<Rightarrow> jsnum" where
  "js_mul (Fin a) (Fin b) = to_double (a * b)"
| "js_mul NaN y = NaN"
| "js_mul x NaN = NaN"
| "js_mul PosInf (Fin b) = inf_times PosInf b"
| "js_mul NegInf (Fin b) = inf_times NegInf b"
| "js_mul (Fin a) PosInf = inf_times PosInf a"
| "js_mul (Fin a) NegInf = inf_times NegInf a"
| "js_mul PosInf PosInf = PosInf"
| "js_mul NegInf NegInf = PosInf"
| "js_mul PosInf NegInf = NegInf"
| "js_mul NegInf PosInf = NegInf"

fun js_div :: "jsnum \<Rightarrow> jsnum \<Rightarrow> jsnum" where
  "js_div (Fin a) (Fin b) =
     (if b = 0 then (if a = 0 then NaN else if 0 < a then PosInf else NegInf)
      else to_double (a / b))"
| "js_div NaN y = NaN"
| "js_div x NaN = NaN"
| "js_div (Fin a) PosInf = Fin 0"
| "js_div (Fin a) NegInf = Fin 0"
| "js_div PosInf (Fin b) = (if 0 \<le> b then PosInf else NegInf)"
| "js_div NegInf (Fin b) = (if 0 \<le> b then NegInf else PosInf)"
| "js_div x y = NaN"

text \<open>\<^verbatim>\<open>Math.ceil\<close>\<close>

fun math_ceil :: "jsnum \<Rightarrow> jsnum" where
  "math_ceil (Fin a) = Fin (of_int \<lceil>a\<rceil>)"
| "math_ceil x = x"

text \<open>
  A whole number in the range of the doubles. (Up to \<open>2 ^ 53\<close> every whole number
  is a double; above, the doubles are whole numbers.)
\<close>

fun whole :: "jsnum \<Rightarrow> bool" where
  "whole (Fin a) = (a = of_int \<lfloor>a\<rfloor> \<and> \<bar>a\<bar> < overflow)"
| "whole x = False"

text \<open>
  The values of a list are mutually comparable when ``not greater than'' is
  transitive on them, so that \<^verbatim>\<open><\<close> orders them like a total order with ties.
  Strings are, and so are numbers other than \<^verbatim>\<open>NaN\<close>; \<^verbatim>\<open>undefined\<close> next to two
  different strings is not, since it is neither less nor greater than either.
\<close>

definition comparable :: "(string \<Rightarrow> jsnum) \<Rightarrow> jsval list \<Rightarrow> bool" where
  "comparable tn vs =
     (\<forall>a\<in>set vs. \<forall>b\<in>set vs. \<forall>c\<in>set vs.
        \<not> js_lt tn b a \<and> \<not> js_lt tn c b \<longrightarrow> \<not> js_lt tn c a)"

subsection \<open>String methods\<close>

text \<open>
  \<^verbatim>\<open>String.prototype.toLowerCase\<close> and \<^verbatim>\<open>toUpperCase\<close> on ASCII: the 26
  letters change, every other code unit stays.
\<close>

definition lower_char :: "char \<Rightarrow> char" where
  "lower_char c =
     (case map_of (zip ''ABCDEFGHIJKLMNOPQRSTUVWXYZ'' ''abcdefghijklmnopqrstuvwxyz'') c of
        Some d \<Rightarrow> d
      | None \<Rightarrow> c)"

definition upper_char :: "char \<Rightarrow> char" where
  "upper_char c =
     (case map_of (zip ''abcdefghijklmnopqrstuvwxyz'' ''ABCDEFGHIJKLMNOPQRSTUVWXYZ'') c of
        Some d \<Rightarrow> d
      | None \<Rightarrow> c)"

definition toLowerCase :: "string \<Rightarrow> string" where
  "toLowerCase s = map lower_char s"

definition toUpperCase :: "string \<Rightarrow> string" where
  "toUpperCase s = map upper_char s"

text \<open>\<^verbatim>\<open>s.startsWith(q)\<close>, \<^verbatim>\<open>s.endsWith(q)\<close>, \<^verbatim>\<open>s.includes(q)\<close>.\<close>

fun startsWith :: "string \<Rightarrow> string \<Rightarrow> bool" where
  "startsWith s [] = True"
| "startsWith [] (c # q) = False"
| "startsWith (d # s) (c # q) = (d = c \<and> startsWith s q)"

definition endsWith :: "string \<Rightarrow> string \<Rightarrow> bool" where
  "endsWith s q = startsWith (rev s) (rev q)"

fun js_includes :: "string \<Rightarrow> string \<Rightarrow> bool" where
  "js_includes [] q = (q = [])"
| "js_includes (c # s) q = (startsWith (c # s) q \<or> js_includes s q)"


section \<open>Entities and the types of \<^verbatim>\<open>@/types\<close>\<close>

text \<open>
  \<^verbatim>\<open>BaseEntity\<close>: an identifier (a string), two timestamps and any further
  attributes under string keys. \<open>attrs\<close> holds the further own properties
  in the order they were set; an earlier entry shadows a later one with the same
  key, as do the three declared attributes. \<open>inherited\<close> holds what the entity
  inherits along its prototype chain, by name, with the value that reading the
  name on the entity gives (a method, or the value of a getter such as
  \<^verbatim>\<open>fullName\<close> of \<^verbatim>\<open>UserClass\<close>); a nearer prototype comes first.
\<close>

record entity =
  entity_id :: string
  createdAt :: date
  updatedAt :: date
  attrs :: "(string \<times> jsval) list"
  inherited :: "(string \<times> jsval) list"

definition own_props :: "entity \<Rightarrow> (string \<times> jsval) list" where
  "own_props e =
     (''id'', VStr (entity_id e)) # (''createdAt'', VDate (createdAt e)) #
     (''updatedAt'', VDate (updatedAt e)) # attrs e"

text \<open>
  \<^verbatim>\<open>item[field]\<close>: the value of the own property of that name, else of the
  inherited one, else \<^verbatim>\<open>undefined\<close>.
\<close>

definition get_prop :: "entity \<Rightarrow> string \<Rightarrow> jsval" where
  "get_prop item fld =
     (case map_of (own_props item @ inherited item) fld of
        None \<Rightarrow> VUndefined
      | Some v \<Rightarrow> v)"

text \<open>The entity has the attribute, as its own or inherited: \<^verbatim>\<open>field in item\<close>.\<close>

definition has_prop :: "entity \<Rightarrow> string \<Rightarrow> bool" where
  "has_prop item fld = (fld \<in> set (map fst (own_props item @ inherited item)))"

text \<open>
  \<^verbatim>\<open>Object.values(item)\<close>: the value of each own property, once per key; inherited
  properties are not among them. Its only use is under \<^verbatim>\<open>some\<close>, which does not
  depend on the order.
\<close>

definition object_values :: "entity \<Rightarrow> jsval list" where
  "object_values item =
     map (\<lambda>k. case map_of (own_props item) k of None \<Rightarrow> VUndefined | Some v \<Rightarrow> v)
       (remdups (map fst (own_props item)))"

text \<open>\<^verbatim>\<open>enum FilterOperator\<close>: a string enum, so an operator is a string at run time.\<close>

definition EQUALS :: string where "EQUALS = ''EQUALS''"
definition CONTAINS :: string where "CONTAINS = ''CONTAINS''"
definition STARTS_WITH :: string where "STARTS_WITH = ''STARTS_WITH''"
definition ENDS_WITH :: string where "ENDS_WITH = ''ENDS_WITH''"
definition GREATER_THAN :: string where "GREATER_THAN = ''GREATER_THAN''"
definition LESS_THAN :: string where "LESS_THAN = ''LESS_THAN''"

lemmas FilterOperator_defs =
  EQUALS_def CONTAINS_def STARTS_WITH_def ENDS_WITH_def GREATER_THAN_def LESS_THAN_def

text \<open>\<^verbatim>\<open>enum SortOrder\<close>\<close>

definition ASC :: string where "ASC = ''asc''"
definition DESC :: string where "DESC = ''desc''"

text \<open>\<^verbatim>\<open>FilterCriteria\<close> (the attribute \<^verbatim>\<open>value\<close> is \<open>fvalue\<close> here).\<close>

record FilterCriteria =
  field :: string
  fvalue :: jsval
  operator :: string

text \<open>
  \<^verbatim>\<open>SearchParameters\<close>: every attribute is optional. \<open>page\<close> and \<open>limit\<close> are
  numbers.
\<close>

record SearchParameters =
  query :: "string option"
  filters :: "FilterCriteria list option"
  sortBy :: "string option"
  sortOrder :: "string option"
  page :: "jsnum option"
  limit :: "jsnum option"

record PaginationMeta =
  currentPage :: jsnum
  totalPages :: jsnum
  totalItems :: nat
  itemsPerPage :: jsnum
  hasNextPage :: bool
  hasPreviousPage :: bool

text \<open>\<^verbatim>\<open>PaginatedResponse<T> extends ApiResponse<T[]>\<close>; \<open>'d\<close> is the type of the array.\<close>

record 'd PaginatedResponse =
  success :: bool
  data :: "'d option"
  error :: "string option"
  message :: "string option"
  meta :: "PaginationMeta option"

section \<open>Built-in array and number operations\<close>

text \<open>
  \<^verbatim>\<open>Array.prototype.slice(start, end)\<close>. An index is made a whole number by
  \<^verbatim>\<open>ToIntegerOrInfinity\<close> (\<^verbatim>\<open>NaN\<close> is 0, a fraction is cut off towards 0); a
  negative index counts from the end of the array, and both indices are clamped to
  the array.
\<close>

definition to_integer :: "rat \<Rightarrow> int" where
  "to_integer a = (if 0 \<le> a then \<lfloor>a\<rfloor> else \<lceil>a\<rceil>)"

fun slice_index :: "nat \<Rightarrow> jsnum \<Rightarrow> nat" where
  "slice_index len NaN = 0"
| "slice_index len PosInf = len"
| "slice_index len NegInf = 0"
| "slice_index len (Fin a) =
     (if to_integer a < 0 then nat (max (int len + to_integer a) 0)
      else nat (min (to_integer a) (int len)))"

definition js_slice :: "'a list \<Rightarrow> jsnum \<Rightarrow> jsnum \<Rightarrow> 'a list" where
  "js_slice xs start fin =
     (let len = length xs;
          k = slice_index len start;
          final = slice_index len fin
      in take (final - k) (drop k xs))"

text \<open>
  \<^verbatim>\<open>Array.prototype.sort(compareFn)\<close>. ECMAScript requires the sort to be stable;
  it fixes the result when \<^verbatim>\<open>compareFn\<close> is a consistent comparator for the
  elements and leaves the order to the implementation otherwise. The model is
  the stable insertion sort: an element is placed before the first element of
  the later ones that it does not compare greater than.
\<close>

fun insert_by :: "('a \<Rightarrow> 'a \<Rightarrow> int) \<Rightarrow> 'a \<Rightarrow> 'a list \<Rightarrow> 'a list" where
  "insert_by cmp x [] = [x]"
| "insert_by cmp x (y # ys) =
     (if cmp x y \<le> 0 then x # y # ys else y # insert_by cmp x ys)"

definition js_sort :: "('a \<Rightarrow> 'a \<Rightarrow> int) \<Rightarrow> 'a list \<Rightarrow> 'a list" where
  "js_sort cmp xs = foldr (insert_by cmp) xs []"

text \<open>
  \<^verbatim>\<open>Math.ceil(totalItems / limit)\<close> for the length of an array, which is a whole
  number below \<open>2 ^ 32\<close>.
\<close>

definition ceil_div :: "nat \<Rightarrow> jsnum \<Rightarrow> jsnum" where
  "ceil_div n l = math_ceil (js_div (Fin (of_nat n)) l)"

section \<open>\<^verbatim>\<open>DataService\<close> on values\<close>

text \<open>
  In this section the private array \<^verbatim>\<open>this.data\<close> is the list of its elements'
  contents; the section after the next one keeps arrays and entities in a store.
\<close>

text \<open>\<^verbatim>\<open>applyFilter(item, filter)\<close>\<close>

definition applyFilter :: "(string \<Rightarrow> jsnum) \<Rightarrow> entity \<Rightarrow> FilterCriteria \<Rightarrow> bool" where
  "applyFilter tn item flt =
     (let itemValue = get_prop item (field flt);
          filterValue = fvalue flt
      in if operator flt = EQUALS then strict_eq itemValue filterValue
         else if operator flt = CONTAINS then
           (case (itemValue, filterValue) of
              (VStr iv, VStr fv) \<Rightarrow> js_includes (toLowerCase iv) (toLowerCase fv)
            | _ \<Rightarrow> False)
         else if operator flt = STARTS_WITH then
           (case (itemValue, filterValue) of
              (VStr iv, VStr fv) \<Rightarrow> startsWith (toLowerCase iv) (toLowerCase fv)
            | _ \<Rightarrow> False)
         else if operator flt = ENDS_WITH then
           (case (itemValue, filterValue) of
              (VStr iv, VStr fv) \<Rightarrow> endsWith (toLowerCase iv) (toLowerCase fv)
            | _ \<Rightarrow> False)
         else if operator flt = GREATER_THAN then js_gt tn itemValue filterValue
         else if operator flt = LESS_THAN then js_lt tn itemValue filterValue
         else False)"

text \<open>
  The predicate of the free-text filter, for the lowered query:
  \<^verbatim>\<open>Object.values(item).some((value) => typeof value === 'string' && value.toLowerCase().includes(query))\<close>
\<close>

definition matches_query :: "string \<Rightarrow> entity \<Rightarrow> bool" where
  "matches_query q item =
     list_ex (\<lambda>v. case v of VStr s \<Rightarrow> js_includes (toLowerCase s) q | _ \<Rightarrow> False)
       (object_values item)"

text \<open>The comparator that \<^verbatim>\<open>search\<close> passes to \<^verbatim>\<open>sort\<close>.\<close>

definition compare_items ::
  "(string \<Rightarrow> jsnum) \<Rightarrow> string \<Rightarrow> string option \<Rightarrow> entity \<Rightarrow> entity \<Rightarrow> int" where
  "compare_items tn sb so a b =
     (let aValue = get_prop a sb; bValue = get_prop b sb
      in if js_lt tn aValue bValue then (if so = Some DESC then 1 else - 1)
         else if js_gt tn aValue bValue then (if so = Some DESC then - 1 else 1)
         else 0)"

text \<open>
  The three stages of \<^verbatim>\<open>search\<close> before the slice. A stage runs when its
  parameter is truthy: a query and a sort field that are not the empty string, a
  list of filters that is not empty.
\<close>

definition query_stage :: "SearchParameters \<Rightarrow> entity list \<Rightarrow> entity list" where
  "query_stage params filteredData =
     (case query params of
        Some q \<Rightarrow>
          if q \<noteq> [] then filter (matches_query (toLowerCase q)) filteredData
          else filteredData
      | None \<Rightarrow> filteredData)"

definition filters_stage ::
  "(string \<Rightarrow> jsnum) \<Rightarrow> SearchParameters \<Rightarrow> entity list \<Rightarrow> entity list" where
  "filters_stage tn params filteredData =
     (case filters params of
        Some fs \<Rightarrow>
          if length fs > 0
          then filter (\<lambda>item. list_all (applyFilter tn item) fs) filteredData
          else filteredData
      | None \<Rightarrow> filteredData)"

definition sort_stage ::
  "(string \<Rightarrow> jsnum) \<Rightarrow> SearchParameters \<Rightarrow> entity list \<Rightarrow> entity list" where
  "sort_stage tn params filteredData =
     (case sortBy params of
        Some sb \<Rightarrow>
          if sb \<noteq> [] then js_sort (compare_items tn sb (sortOrder params)) filteredData
          else filteredData
      | None \<Rightarrow> filteredData)"

text \<open>The filtered and sorted candidate set: \<^verbatim>\<open>filteredData\<close> when the slice is taken.\<close>

definition candidates ::
  "(string \<Rightarrow> jsnum) \<Rightarrow> entity list \<Rightarrow> SearchParameters \<Rightarrow> entity list" where
  "candidates tn this_data params =
     sort_stage tn params (filters_stage tn params (query_stage params this_data))"

text \<open>The pagination metadata and the response that \<^verbatim>\<open>search\<close> builds.\<close>

definition page_of :: "SearchParameters \<Rightarrow> jsnum" where
  "page_of params = (case page params of Some p \<Rightarrow> p | None \<Rightarrow> Fin 1)"

definition limit_of :: "SearchParameters \<Rightarrow> jsnum" where
  "limit_of params = (case limit params of Some l \<Rightarrow> l | None \<Rightarrow> Fin 10)"

definition make_meta :: "SearchParameters \<Rightarrow> nat \<Rightarrow> PaginationMeta" where
  "make_meta params n =
     (let pg = page_of params;
          l = limit_of params;
          pages = ceil_div n l
      in \<lparr> currentPage = pg,
           totalPages = pages,
           totalItems = n,
           itemsPerPage = l,
           hasNextPage = num_lt pg pages,
           hasPreviousPage = num_lt (Fin 1) pg \<rparr>)"

definition page_slice :: "SearchParameters \<Rightarrow> 'a list \<Rightarrow> 'a list" where
  "page_slice params filteredData =
     (let pg = page_of params;
          l = limit_of params;
          startIndex = js_mul (js_sub pg (Fin 1)) l;
          endIndex = js_add startIndex l
      in js_slice filteredData startIndex endIndex)"

text \<open>\<^verbatim>\<open>search(params)\<close>\<close>

definition search ::
  "(string \<Rightarrow> jsnum) \<Rightarrow> entity list \<Rightarrow> SearchParameters \<Rightarrow> entity list PaginatedResponse" where
  "search tn this_data params =
     (let filteredData = candidates tn this_data params;
          paginatedData = page_slice params filteredData;
          m = make_meta params (length filteredData)
      in \<lparr> success = True, data = Some paginatedData, error = None, message = None,
           meta = Some m \<rparr>)"

text \<open>\<^verbatim>\<open>findById\<close>, \<^verbatim>\<open>findAll\<close>, \<^verbatim>\<open>findBy\<close>, \<^verbatim>\<open>count\<close> on the contents.\<close>

definition findById :: "entity list \<Rightarrow> string \<Rightarrow> entity option" where
  "findById this_data i = find (\<lambda>item. entity_id item = i) this_data"

definition findAll :: "entity list \<Rightarrow> entity list" where
  "findAll this_data = this_data"

definition findBy :: "entity list \<Rightarrow> string \<Rightarrow> jsval \<Rightarrow> entity list" where
  "findBy this_data fld v = filter (\<lambda>item. strict_eq (get_prop item fld) v) this_data"

definition count :: "entity list \<Rightarrow> nat" where
  "count this_data = length this_data"


section \<open>\<^verbatim>\<open>DataService\<close> on a store\<close>

text \<open>
  Arrays and entities are objects, and \<^verbatim>\<open>findAll\<close>, \<^verbatim>\<open>findBy\<close> and \<^verbatim>\<open>search\<close>
  hand arrays of entity references to the caller. Here an array is an address in
  a store of arrays whose elements are addresses in a store of entities;
  \<open>this_data\<close> is the private attribute \<^verbatim>\<open>data\<close> of the service, the address of
  its array; \<open>fresh\<close> is the next address at which an array is created.
\<close>

record store =
  objects :: "addr \<Rightarrow> entity"
  arrays :: "addr \<Rightarrow> addr list"
  fresh :: addr
  this_data :: addr

text \<open>A new array object with the given elements.\<close>

definition new_array :: "addr list \<Rightarrow> store \<Rightarrow> addr \<times> store" where
  "new_array xs s = (fresh s, s\<lparr> arrays := (arrays s)(fresh s := xs), fresh := Suc (fresh s) \<rparr>)"

text \<open>\<^verbatim>\<open>new DataService()\<close>: \<^verbatim>\<open>private data: T[] = []\<close>, in a world of entities.\<close>

definition svc_new :: "(addr \<Rightarrow> entity) \<Rightarrow> store" where
  "svc_new objs = \<lparr> objects = objs, arrays = (\<lambda>a. []), fresh = 1, this_data = 0 \<rparr>"

text \<open>The stored sequence: the elements of \<^verbatim>\<open>this.data\<close>.\<close>

definition stored :: "store \<Rightarrow> addr list" where
  "stored s = arrays s (this_data s)"

text \<open>\<^verbatim>\<open>add(item)\<close>: \<^verbatim>\<open>this.data.push(item)\<close>, in place.\<close>

definition svc_add :: "addr \<Rightarrow> store \<Rightarrow> store" where
  "svc_add item s = s\<lparr> arrays := (arrays s)(this_data s := stored s @ [item]) \<rparr>"


text \<open>\<^verbatim>\<open>findAll()\<close>: \<^verbatim>\<open>[...this.data]\<close>, a new array with the same elements.\<close>

definition svc_findAll :: "store \<Rightarrow> addr \<times> store" where
  "svc_findAll s = new_array (stored s) s"

definition svc_findBy :: "string \<Rightarrow> jsval \<Rightarrow> store \<Rightarrow> addr \<times> store" where
  "svc_findBy fld v s =
     new_array (filter (\<lambda>item. strict_eq (get_prop (objects s item) fld) v) (stored s)) s"

definition svc_count :: "store \<Rightarrow> nat" where
  "svc_count s = length (stored s)"

text \<open>\<^verbatim>\<open>clear()\<close>: \<^verbatim>\<open>this.data = []\<close>, a new array; the old one is not changed.\<close>

definition svc_clear :: "store \<Rightarrow> store" where
  "svc_clear s = (let (a, s') = new_array [] s in s'\<lparr> this_data := a \<rparr>)"

text \<open>
  \<^verbatim>\<open>search(params)\<close>: \<^verbatim>\<open>filteredData\<close> is a variable holding an array. The
  spread \<^verbatim>\<open>[...this.data]\<close>, each \<^verbatim>\<open>filter\<close> and \<^verbatim>\<open>slice\<close> make a new array, and
  \<^verbatim>\<open>sort\<close> sorts the array that \<^verbatim>\<open>filteredData\<close> holds in place. Each stage takes
  and returns the array that \<^verbatim>\<open>filteredData\<close> holds and the store.
\<close>

definition svc_query_stage :: "SearchParameters \<Rightarrow> addr \<times> store \<Rightarrow> addr \<times> store" where
  "svc_query_stage params = (\<lambda>(filteredData, s).
     case query params of
       Some q \<Rightarrow>
         if q \<noteq> []
         then new_array
                (filter (\<lambda>item. matches_query (toLowerCase q) (objects s item))
                   (arrays s filteredData)) s
         else (filteredData, s)
     | None \<Rightarrow> (filteredData, s))"

definition svc_filters_stage ::
  "(string \<Rightarrow> jsnum) \<Rightarrow> SearchParameters \<Rightarrow> addr \<times> store \<Rightarrow> addr \<times> store" where
  "svc_filters_stage tn params = (\<lambda>(filteredData, s).
     case filters params of
       Some fs \<Rightarrow>
         if length fs > 0
         then new_array
                (filter (\<lambda>item. list_all (applyFilter tn (objects s item)) fs)
                   (arrays s filteredData)) s
         else (filteredData, s)
     | None \<Rightarrow> (filteredData, s))"

definition svc_sort_stage ::
  "(string \<Rightarrow> jsnum) \<Rightarrow> SearchParameters \<Rightarrow> addr \<times> store \<Rightarrow> addr \<times> store" where
  "svc_sort_stage tn params = (\<lambda>(filteredData, s).
     case sortBy params of
       Some sb \<Rightarrow>
         if sb \<noteq> []
         then (filteredData,
               s\<lparr> arrays := (arrays s)
                   (filteredData :=
                      js_sort (\<lambda>a b. compare_items tn sb (sortOrder params)
                                 (objects s a) (objects s b))
                        (arrays s filteredData)) \<rparr>)
         else (filteredData, s)
     | None \<Rightarrow> (filteredData, s))"

definition svc_search ::
  "(string \<Rightarrow> jsnum) \<Rightarrow> SearchParameters \<Rightarrow> store \<Rightarrow> addr PaginatedResponse \<times> store" where
  "svc_search tn params s =
     (let (filteredData, s') =
            svc_sort_stage tn params
              (svc_filters_stage tn params
                 (svc_query_stage params (new_array (stored s) s)));
          (paginatedData, s'') = new_array (page_slice params (arrays s' filteredData)) s';
          m = make_meta params (length (arrays s' filteredData))
      in (\<lparr> success = True, data = Some paginatedData, error = None, message = None,
            meta = Some m \<rparr>,
          s''))"

text \<open>Calls of the public methods, and the store after a sequence of calls.\<close>

datatype call =
    Add addr
  | FindById string
  | FindAll
  | FindBy string jsval
  | Search SearchParameters
  | Count
  | Clear

fun exec :: "(string \<Rightarrow> jsnum) \<Rightarrow> call \<Rightarrow> store \<Rightarrow> store" where
  "exec tn (Add item) s = svc_add item s"
| "exec tn (FindById i) s = s"
| "exec tn FindAll s = snd (svc_findAll s)"
| "exec tn (FindBy fld v) s = snd (svc_findBy fld v s)"
| "exec tn (Search params) s = snd (svc_search tn params s)"
| "exec tn Count s = s"
| "exec tn Clear s = svc_clear s"

fun run :: "(string \<Rightarrow> jsnum) \<Rightarrow> call list \<Rightarrow> store \<Rightarrow> store" where
  "run tn [] s = s"
| "run tn (c # cs) s = run tn cs (exec tn c s)"





text \<open>
  The number of \<^verbatim>\<open>add\<close> calls of a sequence of calls since its last \<^verbatim>\<open>clear\<close>, or
  since its start when it has no \<^verbatim>\<open>clear\<close>.
\<close>

fun is_Add :: "call \<Rightarrow> bool" where
  "is_Add (Add item) = True"
| "is_Add c = False"

definition adds_since_clear :: "call list \<Rightarrow> nat" where
  "adds_since_clear cs = length (filter is_Add (takeWhile (\<lambda>c. c \<noteq> Clear) (rev cs)))"



text \<open>
  Relations between stores, for the proofs. In a well-formed store the array of
  the service has been created. The result of a stage of \<^verbatim>\<open>search\<close> is local to
  the store the call started from when it holds an array created since, and no
  older array, no entity and not \<^verbatim>\<open>this.data\<close> has changed. Two stores are the
  same but for the array \<open>a\<close> when they differ at most in the elements of
  \<open>a\<close>, an array that exists and is not the service's.
\<close>

definition store_ok :: "store \<Rightarrow> bool" where
  "store_ok s = (this_data s < fresh s)"

definition local_to :: "store \<Rightarrow> addr \<times> store \<Rightarrow> bool" where
  "local_to s = (\<lambda>(fd, s'). objects s' = objects s \<and> this_data s' = this_data s \<and>
      fresh s \<le> fd \<and> fd < fresh s' \<and> (\<forall>a < fresh s. arrays s' a = arrays s a))"



section \<open>Order numbers\<close>

text \<open>
  \<^verbatim>\<open>OrderClass.generateOrderNumber\<close> reads the clock and the random number
  generator. Its inputs here are \<open>now\<close>, the integer \<^verbatim>\<open>Date.now()\<close>, and
  \<open>rnd36\<close>, the string \<^verbatim>\<open>Math.random().toString(36)\<close>.
\<close>

text \<open>The decimal digits of a natural number, and \<^verbatim>\<open>toString()\<close> of an integer.\<close>

function digits :: "nat \<Rightarrow> string" where
  "digits n =
     (if n < 10 then [char_of (48 + n)]
      else digits (n div 10) @ [char_of (48 + n mod 10)])"
  by pat_completeness auto
termination
  by (relation "measure (\<lambda>n. n)") auto

definition int_toString :: "int \<Rightarrow> string" where
  "int_toString i = (if i < 0 then CHR ''-'' # digits (nat (- i)) else digits (nat i))"

text \<open>\<^verbatim>\<open>s.slice(-8)\<close>: the last eight code units, or all of a shorter string.\<close>

definition slice_last8 :: "string \<Rightarrow> string" where
  "slice_last8 s = drop (length s - 8) s"

text \<open>\<^verbatim>\<open>s.substring(2, 6)\<close>: both indices are clamped to the string.\<close>

definition substring_2_6 :: "string \<Rightarrow> string" where
  "substring_2_6 s = take 4 (drop 2 s)"

definition generateOrderNumber :: "int \<Rightarrow> string \<Rightarrow> string" where
  "generateOrderNumber now rnd36 =
     (let prefix = ''ORD'';
          timestamp = slice_last8 (int_toString now);
          random = toUpperCase (substring_2_6 rnd36)
      in prefix @ ''-'' @ timestamp @ ''-'' @ random)"

text \<open>The format \<^verbatim>\<open>PREFIX-########-XXXX\<close>: eight digits, four upper-case letters or digits.\<close>

definition is_digit :: "char \<Rightarrow> bool" where
  "is_digit c = (c \<in> set ''0123456789'')"

definition is_upper_alnum :: "char \<Rightarrow> bool" where
  "is_upper_alnum c = (c \<in> set ''0123456789ABCDEFGHIJKLMNOPQRSTUVWXYZ'')"

definition order_number_format :: "string \<Rightarrow> bool" where
  "order_number_format s =
     (length s = 17 \<and> take 4 s = ''ORD-'' \<and> list_all is_digit (take 8 (drop 4 s)) \<and>
      s ! 12 = CHR ''-'' \<and> list_all is_upper_alnum (drop 13 s))"


section \<open>Example inputs\<close>

text \<open>
  A stand-in for \<^verbatim>\<open>StringToNumber\<close> in the examples, none of which converts a
  string to a number.
\<close>

definition tn0 :: "string \<Rightarrow> jsnum" where
  "tn0 s = NaN"

text \<open>
  Some of what a plain object inherits from \<^verbatim>\<open>Object.prototype\<close>: methods, with
  the text that an engine gives for a built-in function.
\<close>

definition Object_prototype :: "(string \<times> jsval) list" where
  "Object_prototype =
     [(''constructor'', VFunction 100 ''function Object() { [native code] }''),
      (''toString'', VFunction 101 ''function toString() { [native code] }''),
      (''valueOf'', VFunction 102 ''function valueOf() { [native code] }''),
      (''hasOwnProperty'', VFunction 103 ''function hasOwnProperty() { [native code] }'')]"

text \<open>A plain object with the given identifier and further attributes.\<close>

definition mk_entity :: "string \<Rightarrow> (string \<times> jsval) list \<Rightarrow> entity" where
  "mk_entity i as =
     \<lparr> entity_id = i, createdAt = Date 0 (Fin 1700000000000),
       updatedAt = Date 1 (Fin 1700000000000), attrs = as, inherited = Object_prototype \<rparr>"

text \<open>An order with a buyer name, and a login record with or without an origin address.\<close>

definition order :: "string \<Rightarrow> string \<Rightarrow> entity" where
  "order i buyer = mk_entity i [(''buyerName'', VStr buyer), (''status'', VStr ''PENDING'')]"

definition login_record :: "string \<Rightarrow> string option \<Rightarrow> entity" where
  "login_record i ip =
     mk_entity i ((''userId'', VStr ''u1'') #
       (case ip of Some a \<Rightarrow> [(''ipAddress'', VStr a)] | None \<Rightarrow> []))"

text \<open>Twelve orders, and the doubles nearest to 1.2 and to 1.4.\<close>

definition twelve_orders :: "entity list" where
  "twelve_orders = map (\<lambda>c. order [c] ''Alice'') ''abcdefghijkl''"

definition double_1_2 :: jsnum where
  "double_1_2 = Fin (5404319552844595 / 4503599627370496)"

definition double_1_4 :: jsnum where
  "double_1_4 = Fin (3152519739159347 / 2251799813685248)"

text \<open>The request with no attribute set.\<close>

definition no_params :: SearchParameters where
  "no_params =
     \<lparr> query = None, filters = None, sortBy = None, sortOrder = None, page = None,
       limit = None \<rparr>"





section \<open>Properties of the arithmetic of doubles\<close>

lemma round_half_even_int [simp]: "round_half_even (of_int z) = z"
  by (simp add: round_half_even_def)

lemma round_half_even_error: "\<bar>of_int (round_half_even m) - m\<bar> \<le> 1 / 2"
proof -
  have "of_int \<lfloor>m\<rfloor> \<le> m" "m < of_int \<lfloor>m\<rfloor> + 1" by linarith+
  then show ?thesis
    by (auto simp: round_half_even_def Let_def abs_le_iff)
qed

lemma powi_Suc: "(2::rat) powi (e + 1) = 2 * 2 powi e"
  by (simp add: power_int_add)

lemma powi_pred: "(2::rat) powi (e - 1) = 2 powi e / 2"
  by (simp add: power_int_diff)

lemma powi_pos [simp]: "0 < (2::rat) powi e"
  by simp

lemma powi_mono: "a \<le> b \<Longrightarrow> (2::rat) powi a \<le> 2 powi b"
  by (rule power_int_increasing) simp_all

lemma binary_exponent_correct:
  "2 powi (- int n) \<le> x \<Longrightarrow> x < 2 powi (int n + 1) \<Longrightarrow>
   2 powi (binary_exponent n x) \<le> x \<and> x < 2 powi (binary_exponent n x + 1)"
proof (induction n arbitrary: x)
  case 0
  then show ?case by simp
next
  case (Suc n)
  show ?case
  proof (cases "2 \<le> x")
    case True
    define e where "e = binary_exponent n (x / 2)"
    have "(2::rat) powi (- int n) \<le> 2 powi 0" by (rule powi_mono) simp
    then have a: "2 powi (- int n) \<le> x / 2" using True by simp
    have "(2::rat) powi (int (Suc n) + 1) = 2 * 2 powi (int n + 1)"
      using powi_Suc[of "int n + 1"] by (simp add: add.commute)
    then have b: "x / 2 < 2 powi (int n + 1)" using Suc.prems(2) by simp
    from Suc.IH[OF a b] have i: "2 powi e \<le> x / 2" "x / 2 < 2 powi (e + 1)"
      by (simp_all add: e_def)
    have be: "binary_exponent (Suc n) x = e + 1" using True by (simp add: e_def)
    have "2 powi (e + 1) \<le> x" using i(1) powi_Suc[of e] by simp
    moreover have "x < 2 powi (e + 1 + 1)" using i(2) powi_Suc[of "e + 1"] by simp
    ultimately show ?thesis unfolding be by simp
  next
    case False
    show ?thesis
    proof (cases "x < 1")
      case True
      define e where "e = binary_exponent n (2 * x)"
      have "- int (Suc n) = - int n - 1" by simp
      then have "(2::rat) powi (- int (Suc n)) = 2 powi (- int n) / 2"
        using powi_pred[of "- int n"] by (simp only:)
      then have a: "2 powi (- int n) \<le> 2 * x" using Suc.prems(1) by simp
      have "(2::rat) powi 1 \<le> 2 powi (int n + 1)" by (rule powi_mono) simp
      then have b: "2 * x < 2 powi (int n + 1)" using True by simp
      from Suc.IH[OF a b] have i: "2 powi e \<le> 2 * x" "2 * x < 2 powi (e + 1)"
        by (simp_all add: e_def)
      have be: "binary_exponent (Suc n) x = e - 1" using True False by (simp add: e_def)
      have "2 powi (e - 1) \<le> x" using i(1) powi_pred[of e] by simp
      moreover have "x < 2 powi (e - 1 + 1)" using i(2) powi_Suc[of e] by simp
      ultimately show ?thesis unfolding be by simp
    next
      case False
      with \<open>\<not> 2 \<le> x\<close> show ?thesis by simp
    qed
  qed
qed

lemma exponent_unique:
  assumes "(2::rat) powi e \<le> x" "x < 2 powi (e + 1)" "2 powi e' \<le> x" "x < 2 powi (e' + 1)"
  shows "e = e'"
proof (rule ccontr)
  assume "e \<noteq> e'"
  then consider "e + 1 \<le> e'" | "e' + 1 \<le> e" by linarith
  then show False
  proof cases
    case 1
    then have "(2::rat) powi (e + 1) \<le> 2 powi e'" by (rule powi_mono)
    with assms show False by simp
  next
    case 2
    then have "(2::rat) powi (e' + 1) \<le> 2 powi e" by (rule powi_mono)
    with assms show False by simp
  qed
qed

lemma binary_exponent_eq:
  assumes "(2::rat) powi e \<le> x" "x < 2 powi (e + 1)" "- 1100 \<le> e" "e \<le> 1100"
  shows "binary_exponent 1100 x = e"
proof -
  have "(2::rat) powi (- int 1100) \<le> 2 powi e" using assms(3) by (intro powi_mono) simp
  then have a: "2 powi (- int 1100) \<le> x" using assms(1) by simp
  have "(2::rat) powi (e + 1) \<le> 2 powi (int 1100 + 1)" using assms(4) by (intro powi_mono) simp
  then have b: "x < 2 powi (int 1100 + 1)" using assms(2) by simp
  from binary_exponent_correct[OF a b] assms(1,2) show ?thesis
    by (intro exponent_unique[of _ x]) simp_all
qed

lemma round_pos_eq:
  assumes "(2::rat) powi e \<le> x" "x < 2 powi (e + 1)" "- 1022 \<le> e" "e \<le> 1023"
  shows "round_pos x =
     (if overflow \<le> of_int (round_half_even (x / 2 powi (e - 52))) * 2 powi (e - 52)
      then PosInf
      else Fin (of_int (round_half_even (x / 2 powi (e - 52))) * 2 powi (e - 52)))"
proof -
  have "binary_exponent 1100 x = e" using assms by (intro binary_exponent_eq) simp_all
  then show ?thesis using assms(3) by (simp add: round_pos_def Let_def max_def)
qed

text \<open>The whole numbers of magnitude up to \<open>2 ^ 53\<close> are doubles.\<close>

lemma int_exponent:
  assumes "1 \<le> k"
  shows "\<exists>e. 0 \<le> e \<and> (2::rat) powi e \<le> of_int k \<and> of_int k < (2::rat) powi (e + 1)"
proof -
  have a: "(2::rat) powi (- int (nat k)) \<le> of_int k"
  proof -
    have "(2::rat) powi (- int (nat k)) \<le> 2 powi 0" by (rule powi_mono) simp
    also have "\<dots> \<le> of_int k" using assms by simp
    finally show ?thesis .
  qed
  have "nat k < 2 ^ nat k" by (rule less_exp)
  then have "int (nat k) < int (2 ^ nat k)" by (simp only: of_nat_less_iff)
  then have "k < 2 ^ nat k" using assms by simp
  then have "(of_int k :: rat) < of_int (2 ^ nat k)" by (simp only: of_int_less_iff)
  also have "\<dots> = 2 ^ nat k" by simp
  also have "\<dots> = 2 powi (int (nat k))" by (simp only: power_int_of_nat)
  also have "\<dots> \<le> 2 powi (int (nat k) + 1)" by (rule powi_mono) simp
  finally have b: "(of_int k :: rat) < 2 powi (int (nat k) + 1)" .
  let ?e = "binary_exponent (nat k) (of_int k)"
  from binary_exponent_correct[OF a b]
  have c: "2 powi ?e \<le> (of_int k :: rat)" "(of_int k :: rat) < 2 powi (?e + 1)" by simp_all
  have "0 \<le> ?e"
  proof (rule ccontr)
    assume "\<not> 0 \<le> ?e"
    then have "?e + 1 \<le> 0" by simp
    then have "(2::rat) powi (?e + 1) \<le> 2 powi 0" by (rule powi_mono)
    with c(2) have "(of_int k :: rat) < 1" by simp
    with assms show False by simp
  qed
  with c show ?thesis by blast
qed


lemma overflow_powi: "overflow = 2 powi 1024"
  by (simp add: overflow_def)

lemma round_pos_int:
  assumes "1 \<le> k" "k \<le> 2 ^ 53"
  shows "round_pos (of_int k) = Fin (of_int k)"
proof -
  obtain e where e: "0 \<le> e" "(2::rat) powi e \<le> of_int k" "of_int k < (2::rat) powi (e + 1)"
    using int_exponent[OF assms(1)] by blast
  have e53: "e \<le> 53"
  proof (rule ccontr)
    assume "\<not> e \<le> 53"
    then have "(2::rat) powi 54 \<le> 2 powi e" by (intro powi_mono) simp
    with e(2) have "(2::rat) ^ 54 \<le> of_int k" by simp
    moreover have "(of_int k :: rat) \<le> of_int (2 ^ 53)" using assms(2) by (simp only: of_int_le_iff)
    ultimately show False by simp
  qed
  have "\<exists>z. (of_int k :: rat) / 2 powi (e - 52) = of_int z"
  proof (cases "e \<le> 52")
    case True
    have "(2::rat) powi (e - 52) = 1 / 2 powi (52 - e)"
      using power_int_minus_divide[of "2::rat" "52 - e"] by simp
    also have "(2::rat) powi (52 - e) = 2 ^ nat (52 - e)"
      using True power_int_of_nat[of "2::rat" "nat (52 - e)"] by simp
    finally have "(of_int k :: rat) / 2 powi (e - 52) = of_int (k * 2 ^ nat (52 - e))"
      by simp
    then show ?thesis by blast
  next
    case False
    with e53 have e': "e = 53" by simp
    have "(2::rat) ^ 53 \<le> of_int k" using e(2) e' by simp
    moreover have "(of_int k :: rat) \<le> of_int (2 ^ 53)" using assms(2) by (simp only: of_int_le_iff)
    ultimately have "(of_int k :: rat) = 2 ^ 53" by simp
    then have "(of_int k :: rat) / 2 powi (e - 52) = of_int (2 ^ 52)" by (simp add: e')
    then show ?thesis by blast
  qed
  then obtain z where z: "(of_int k :: rat) / 2 powi (e - 52) = of_int z" by blast
  have "of_int z * 2 powi (e - 52) = (of_int k :: rat)"
    unfolding z[symmetric] by simp
  then have y: "of_int (round_half_even (of_int k / 2 powi (e - 52))) * 2 powi (e - 52)
      = (of_int k :: rat)"
    by (simp add: z)
  have "(of_int k :: rat) \<le> of_int (2 ^ 53)" using assms(2) by (simp only: of_int_le_iff)
  then have "(of_int k :: rat) < overflow" by (simp add: overflow_def)
  then show ?thesis
    using round_pos_eq[OF e(2,3)] e(1) e53 by (simp add: y)
qed

lemma to_double_int:
  assumes "\<bar>k\<bar> \<le> 2 ^ 53"
  shows "to_double (of_int k) = Fin (of_int k)"
proof -
  consider "k = 0" | "1 \<le> k" | "1 \<le> - k" by linarith
  then show ?thesis
  proof cases
    case 1
    then show ?thesis by (simp add: to_double_def)
  next
    case 2
    then show ?thesis using assms round_pos_int[of k] by (simp add: to_double_def)
  next
    case 3
    then have "round_pos (of_int (- k)) = Fin (of_int (- k))"
      using assms by (intro round_pos_int) simp_all
    with 3 show ?thesis by (simp add: to_double_def)
  qed
qed

lemma to_double_error:
  assumes "(2::rat) powi (- 1022) \<le> x" "x < 2 powi 1023"
  shows "\<exists>y. to_double x = Fin y \<and> \<bar>y - x\<bar> \<le> x * 2 powi (- 53)"
proof -
  have x0: "0 < x" using assms(1) powi_pos[of "- 1022"] by linarith
  have "(2::rat) powi (- int 1100) \<le> 2 powi (- 1022)" by (intro powi_mono) simp
  then have a: "2 powi (- int 1100) \<le> x" using assms(1) by simp
  have "(2::rat) powi 1023 \<le> 2 powi (int 1100 + 1)" by (intro powi_mono) simp
  then have b: "x < 2 powi (int 1100 + 1)" using assms(2) by simp
  define e where "e = binary_exponent 1100 x"
  from binary_exponent_correct[OF a b]
  have c: "2 powi e \<le> x" "x < 2 powi (e + 1)" by (simp_all add: e_def)
  have lo: "- 1022 \<le> e"
  proof (rule ccontr)
    assume "\<not> - 1022 \<le> e"
    then have "(2::rat) powi (e + 1) \<le> 2 powi (- 1022)" by (intro powi_mono) simp
    with c(2) assms(1) show False by simp
  qed
  have hi: "e \<le> 1022"
  proof (rule ccontr)
    assume "\<not> e \<le> 1022"
    then have "(2::rat) powi 1023 \<le> 2 powi e" by (intro powi_mono) simp
    with c(1) assms(2) show False by simp
  qed
  define ulp where "ulp = (2::rat) powi (e - 52)"
  define y where "y = of_int (round_half_even (x / ulp)) * ulp"
  have u0: "0 < ulp" by (simp add: ulp_def)
  have "\<bar>of_int (round_half_even (x / ulp)) - x / ulp\<bar> * ulp \<le> 1 / 2 * ulp"
    using round_half_even_error[of "x / ulp"] u0 by (intro mult_right_mono) simp_all
  moreover have "\<bar>of_int (round_half_even (x / ulp)) - x / ulp\<bar> * ulp = \<bar>y - x\<bar>"
  proof -
    have "(of_int (round_half_even (x / ulp)) - x / ulp) * ulp = y - x"
      using u0 by (simp add: y_def field_simps)
    then have "\<bar>y - x\<bar> = \<bar>of_int (round_half_even (x / ulp)) - x / ulp\<bar> * \<bar>ulp\<bar>"
      by (simp only: abs_mult[symmetric])
    with u0 show ?thesis by simp
  qed
  ultimately have err: "\<bar>y - x\<bar> \<le> ulp / 2" by simp
  have "(2::rat) powi (e + (- 52)) = 2 powi e * 2 powi (- 52)"
    by (rule power_int_add) simp
  then have "ulp = 2 powi e * 2 powi (- 52)"
    unfolding ulp_def by (simp only: diff_conv_add_uminus)
  then have "ulp / 2 = 2 powi e * 2 powi (- 53)" by simp
  also have "\<dots> \<le> x * 2 powi (- 53)" using c(1) by (intro mult_right_mono) simp_all
  finally have rel: "\<bar>y - x\<bar> \<le> x * 2 powi (- 53)" using err by simp
  define d where "d = x * 2 powi (- 53)"
  have "(2::rat) powi (- 53) \<le> 2 powi 0" by (intro powi_mono) simp
  then have "d \<le> x * 1" unfolding d_def using x0 by (intro mult_left_mono) simp_all
  moreover have "\<bar>y - x\<bar> \<le> d" using rel by (simp only: d_def)
  ultimately have "y \<le> x + x" by linarith
  moreover have "overflow = 2 powi 1023 + 2 powi 1023" by (simp add: overflow_def)
  ultimately have no: "\<not> overflow \<le> y" using assms(2) by linarith
  have "round_pos x = Fin y"
    using round_pos_eq[OF c lo] hi no by (simp add: y_def ulp_def)
  with x0 rel show ?thesis by (auto simp: to_double_def)
qed

text \<open>The quotient of two whole numbers: rounding changes neither floor nor ceiling.\<close>

lemma quotient_round:
  assumes n: "0 \<le> n" "n < 2 ^ 53" and M: "1 \<le> M" "M \<le> 2 ^ 53"
  shows "\<exists>y. to_double (of_int n / of_int M) = Fin y \<and>
             \<lfloor>y\<rfloor> = \<lfloor>(of_int n :: rat) / of_int M\<rfloor> \<and> \<lceil>y\<rceil> = \<lceil>(of_int n :: rat) / of_int M\<rceil>"
proof (cases "n mod M = 0")
  case True
  define q where "q = n div M"
  have nq: "n = q * M" using True div_mult_mod_eq[of n M] by (simp add: q_def)
  have q1: "0 \<le> q" using n M by (simp add: q_def pos_imp_zdiv_nonneg_iff)
  then have "q * 1 \<le> q * M" using M by (intro mult_left_mono) simp_all
  with q1 nq have q0: "0 \<le> q" "q \<le> n" by simp_all
  have x: "(of_int n :: rat) / of_int M = of_int q" using M by (simp add: nq)
  have "to_double (of_int q) = Fin (of_int q)" using q0 n by (intro to_double_int) simp
  then show ?thesis unfolding x by simp
next
  case False
  define q where "q = n div M"
  define r where "r = n mod M"
  define x where "x = (of_int n :: rat) / of_int M"
  have Mpos: "(0::rat) < of_int M" using M by simp
  have "0 \<le> n mod M" "n mod M < M" using M by simp_all
  then have r: "1 \<le> r" "r \<le> M - 1" using False by (simp_all add: r_def)
  have nqr: "n = q * M + r" using div_mult_mod_eq[of n M] by (simp add: q_def r_def)
  have npos: "1 \<le> n" using n False by (cases "n = 0") simp_all
  have xq: "x = of_int q + of_int r / of_int M"
    using Mpos by (simp add: x_def nqr field_simps)
  have lo: "of_int q + 1 / of_int M \<le> x"
    using r(1) Mpos unfolding xq by (simp add: divide_right_mono)
  have hi: "x \<le> of_int q + 1 - 1 / of_int M"
  proof -
    have "(of_int r :: rat) \<le> of_int M - 1" using r(2) by (metis of_int_1 of_int_diff of_int_le_iff)
    then have "(of_int r :: rat) / of_int M \<le> (of_int M - 1) / of_int M"
      using Mpos by (intro divide_right_mono) simp_all
    also have "\<dots> = 1 - 1 / of_int M" using Mpos by (simp add: field_simps)
    finally show ?thesis unfolding xq by simp
  qed
  text \<open>The quotient is in the normal range.\<close>
  have "(of_int M :: rat) \<le> of_int (2 ^ 53)" using M by (simp only: of_int_le_iff)
  then have Mle: "(of_int M :: rat) \<le> 2 ^ 53" by simp
  have "(1::rat) \<le> of_int n" using npos by simp
  then have "1 / of_int M \<le> x" unfolding x_def using Mpos by (intro divide_right_mono) simp_all
  moreover have "1 / 2 ^ 53 \<le> 1 / (of_int M :: rat)" using Mle Mpos by (intro divide_left_mono) simp_all
  moreover have "(2::rat) powi (- 1022) \<le> 1 / 2 ^ 53"
  proof -
    have "(2::rat) powi (- 1022) \<le> 2 powi (- 53)" by (intro powi_mono) simp
    then show ?thesis by (simp add: power_int_minus_divide)
  qed
  ultimately have n1: "2 powi (- 1022) \<le> x" by linarith
  have "(of_int n :: rat) < of_int (2 ^ 53)" using n by (simp only: of_int_less_iff)
  then have nlt: "(of_int n :: rat) < 2 ^ 53" by simp
  have "x \<le> of_int n" unfolding x_def using Mpos M n
    by (simp add: pos_divide_le_eq mult_le_cancel_left1)
  moreover have "(2::rat) ^ 53 \<le> 2 powi 1023"
  proof -
    have "(2::rat) powi 53 \<le> 2 powi 1023" by (intro powi_mono) simp
    then show ?thesis by simp
  qed
  ultimately have n2: "x < 2 powi 1023" using nlt by linarith
  obtain y where y: "to_double x = Fin y" "\<bar>y - x\<bar> \<le> x * 2 powi (- 53)"
    using to_double_error[OF n1 n2] by blast
  text \<open>The error is below \<open>1 / M\<close>.\<close>
  have "x * 2 powi (- 53) = of_int n / 2 ^ 53 / of_int M"
    by (simp add: x_def power_int_minus_divide)
  also have "\<dots> < 1 / of_int M"
    using nlt Mpos by (intro divide_strict_right_mono) simp_all
  finally have d: "\<bar>y - x\<bar> < 1 / of_int M" using y(2) by simp
  have ipos: "0 < 1 / (of_int M :: rat)" using Mpos by simp
  have 1: "of_int q < y" using d lo by linarith
  have 2: "y < of_int q + 1" using d hi by linarith
  have 3: "of_int q < x" "x < of_int q + 1" using lo hi ipos by linarith+
  have "\<lfloor>y\<rfloor> = q" "\<lfloor>x\<rfloor> = q" using 1 2 3 by (simp_all add: floor_unique)
  moreover have "\<lceil>y\<rceil> = q + 1" "\<lceil>x\<rceil> = q + 1" using 1 2 3 by (simp_all add: ceiling_unique)
  ultimately show ?thesis using y(1) by (simp add: x_def)
qed

text \<open>Negation, large numbers and small numbers.\<close>

lemma neg_num_neg_num [simp]: "neg_num (neg_num x) = x"
  by (cases x) simp_all

lemma to_double_minus: "to_double (- x) = neg_num (to_double x)"
  by (simp add: to_double_def)

lemma binary_exponent_lower:
  "1 \<le> x \<Longrightarrow> 0 \<le> binary_exponent n x \<and> 2 powi (binary_exponent n x) \<le> x"
proof (induction n arbitrary: x)
  case 0
  then show ?case by simp
next
  case (Suc n)
  show ?case
  proof (cases "2 \<le> x")
    case True
    then have "1 \<le> x / 2" by simp
    from Suc.IH[OF this]
    have a: "0 \<le> binary_exponent n (x / 2)" "2 powi (binary_exponent n (x / 2)) \<le> x / 2"
      by simp_all
    have "(2::rat) powi (binary_exponent n (x / 2) + 1) = 2 * 2 powi (binary_exponent n (x / 2))"
      by (rule powi_Suc)
    with a True show ?thesis by simp
  next
    case False
    with Suc.prems show ?thesis by simp
  qed
qed

text \<open>
  A number of at least 1 is rounded to \<^verbatim>\<open>Infinity\<close> or to a number that is
  smaller by at most the fraction \<open>2 ^ (- 53)\<close>.
\<close>

lemma to_double_lower:
  assumes "1 \<le> x"
  shows "to_double x = PosInf \<or> (\<exists>y. to_double x = Fin y \<and> x - x * 2 powi (- 53) \<le> y)"
proof -
  define e where "e = binary_exponent 1100 x"
  have e: "0 \<le> e" "2 powi e \<le> x"
    using binary_exponent_lower[OF assms, of 1100] by (simp_all add: e_def)
  define ulp where "ulp = (2::rat) powi (e - 52)"
  define r where "r = round_half_even (x / ulp)"
  define y where "y = of_int r * ulp"
  have u0: "0 < ulp" by (simp add: ulp_def)
  have rp: "round_pos x = (if overflow \<le> y then PosInf else Fin y)"
    unfolding y_def r_def ulp_def e_def round_pos_def Let_def
    using e(1)[unfolded e_def] by (simp add: max_def)
  have "x / ulp - 1 / 2 \<le> of_int r"
    using round_half_even_error[of "x / ulp"] unfolding r_def by linarith
  then have "(x / ulp - 1 / 2) * ulp \<le> of_int r * ulp"
    using u0 by (intro mult_right_mono) simp_all
  moreover have "(x / ulp - 1 / 2) * ulp = x - ulp / 2"
    using u0 by (simp add: field_simps)
  ultimately have err: "x - ulp / 2 \<le> y" by (simp add: y_def)
  have "(2::rat) powi (e + (- 52)) = 2 powi e * 2 powi (- 52)"
    by (rule power_int_add) simp
  then have "ulp = 2 powi e * 2 powi (- 52)"
    unfolding ulp_def by (simp only: diff_conv_add_uminus)
  then have "ulp / 2 = 2 powi e * 2 powi (- 53)" by simp
  also have "\<dots> \<le> x * 2 powi (- 53)" using e(2) by (intro mult_right_mono) simp_all
  finally have "x - x * 2 powi (- 53) \<le> y" using err by linarith
  moreover have "to_double x = round_pos x" using assms by (simp add: to_double_def)
  ultimately show ?thesis using rp by auto
qed

text \<open>A small positive number is not rounded to 0, nor to 1.\<close>

lemma to_double_small:
  assumes "(2::rat) powi (- 1074) \<le> x" "x \<le> 1 / 2"
  shows "\<exists>y. to_double x = Fin y \<and> 0 < y \<and> y < 1"
proof -
  have x0: "0 < x" using assms(1) powi_pos[of "- 1074"] by linarith
  have "(2::rat) powi (- int 1100) \<le> 2 powi (- 1074)" by (intro powi_mono) simp
  then have a: "2 powi (- int 1100) \<le> x" using assms(1) by simp
  have "(2::rat) powi 0 \<le> 2 powi (int 1100 + 1)" by (intro powi_mono) simp
  then have b: "x < 2 powi (int 1100 + 1)" using assms(2) by simp
  define be where "be = binary_exponent 1100 x"
  from binary_exponent_correct[OF a b]
  have c: "2 powi be \<le> x" "x < 2 powi (be + 1)" by (simp_all add: be_def)
  define e where "e = max be (- 1022)"
  define ulp where "ulp = (2::rat) powi (e - 52)"
  define r where "r = round_half_even (x / ulp)"
  define y where "y = of_int r * ulp"
  have u0: "0 < ulp" by (simp add: ulp_def)
  have rp: "round_pos x = (if overflow \<le> y then PosInf else Fin y)"
    unfolding y_def r_def ulp_def e_def be_def round_pos_def Let_def by simp
  have ux: "ulp \<le> x"
  proof (cases "be \<le> - 1022")
    case True
    then have "e = - 1022" by (simp add: e_def)
    then have "ulp = 2 powi (- 1074)" by (simp add: ulp_def)
    with assms(1) show ?thesis by simp
  next
    case False
    then have "e = be" by (simp add: e_def)
    then have "ulp \<le> 2 powi be" unfolding ulp_def by (intro powi_mono) simp
    with c(1) show ?thesis by simp
  qed
  then have m1: "1 \<le> x / ulp" using u0 by (simp add: pos_le_divide_eq)
  have err: "\<bar>of_int r - x / ulp\<bar> \<le> 1 / 2"
    unfolding r_def by (rule round_half_even_error)
  from err m1 have "(0::rat) < of_int r" by linarith
  then have "1 \<le> r" by simp
  then have "(1::rat) \<le> of_int r" by simp
  then have "1 * ulp \<le> of_int r * ulp" using u0 by (intro mult_right_mono) simp_all
  then have y0: "0 < y" using u0 by (simp add: y_def)
  from err have "of_int r \<le> x / ulp + 1 / 2" by linarith
  then have "of_int r * ulp \<le> (x / ulp + 1 / 2) * ulp"
    using u0 by (intro mult_right_mono) simp_all
  moreover have "(x / ulp + 1 / 2) * ulp = x + ulp / 2"
    using u0 by (simp add: field_simps)
  ultimately have "y \<le> x + ulp / 2" by (simp add: y_def)
  with ux assms(2) have y1: "y < 1" by linarith
  have "(1::rat) \<le> overflow" by (simp add: overflow_def)
  with y1 have "\<not> overflow \<le> y" by linarith
  with rp have "round_pos x = Fin y" by simp
  with x0 y0 y1 show ?thesis by (auto simp: to_double_def)
qed

text \<open>The double of a given number of at least 1, from its binary exponent.\<close>

lemma to_double_from_exponent:
  assumes "(2::rat) ^ k \<le> x" "x < 2 * 2 ^ k" "k \<le> 1022"
    and "round_half_even (x * 2 ^ 52 / 2 ^ k) = r"
  shows "to_double x = Fin (of_int r * 2 ^ k / 2 ^ 52)"
proof -
  have p: "(2::rat) powi (int k) = 2 ^ k" by simp
  have q: "(2::rat) powi (int k + 1) = 2 * 2 ^ k" by (simp add: powi_Suc)
  have u: "(2::rat) powi (int k - 52) = 2 ^ k / 2 ^ 52" by (simp add: power_int_diff)
  have x0: "0 < x" using assms(1) zero_less_power[of "2::rat" k] by linarith
  have lo: "(2::rat) powi (int k) \<le> x" using assms(1) p by simp
  have hi: "x < (2::rat) powi (int k + 1)" using assms(2) q by simp
  have "(2::rat) powi (- 1022) \<le> 2 powi (int k)" by (intro powi_mono) simp
  then have n1: "(2::rat) powi (- 1022) \<le> x" using lo by simp
  have "(2::rat) powi (int k + 1) \<le> 2 powi 1023" using assms(3) by (intro powi_mono) simp
  then have n2: "x < 2 powi 1023" using hi by simp
  obtain y where y: "to_double x = Fin y" using to_double_error[OF n1 n2] by blast
  have "round_pos x =
     (if overflow \<le> of_int (round_half_even (x / 2 powi (int k - 52))) * 2 powi (int k - 52)
      then PosInf
      else Fin (of_int (round_half_even (x / 2 powi (int k - 52))) * 2 powi (int k - 52)))"
    using assms(3) by (intro round_pos_eq[OF lo hi]) simp_all
  moreover have "round_pos x = Fin y" using y x0 by (simp add: to_double_def)
  ultimately have "Fin y = Fin (of_int (round_half_even (x / 2 powi (int k - 52))) * 2 powi (int k - 52))"
    by (simp split: if_splits)
  then show ?thesis using y assms(4) unfolding u by simp
qed

text \<open>
  The quotient of the length of an array and a whole number: rounding changes
  neither floor nor ceiling.
\<close>

lemma quotient_round_whole:
  assumes n: "0 \<le> n" "n < 2 ^ 32" and M: "1 \<le> M" "(of_int M :: rat) < overflow"
  shows "\<exists>y. to_double (of_int n / of_int M) = Fin y \<and>
             \<lfloor>y\<rfloor> = \<lfloor>(of_int n :: rat) / of_int M\<rfloor> \<and> \<lceil>y\<rceil> = \<lceil>(of_int n :: rat) / of_int M\<rceil>"
proof (cases "M \<le> 2 ^ 53")
  case True
  have "n < 2 ^ 53" using n(2) by simp
  with n(1) M(1) True show ?thesis by (intro quotient_round) simp_all
next
  case False
  show ?thesis
  proof (cases "n = 0")
    case True
    then show ?thesis by (simp add: to_double_def)
  next
    case n0: False
    define x where "x = (of_int n :: rat) / of_int M"
    have Mpos: "(0::rat) < of_int M" using M(1) by simp
    have "2 * n \<le> M" using n(2) False by simp
    then have "(of_int (2 * n) :: rat) \<le> of_int M" by (simp only: of_int_le_iff)
    then have half: "x \<le> 1 / 2" using Mpos by (simp add: x_def field_simps)
    have "(1::rat) \<le> of_int n" using n(1) n0 by simp
    then have "1 / of_int M \<le> x" using Mpos unfolding x_def by (intro divide_right_mono) simp_all
    moreover have "1 / overflow < 1 / (of_int M :: rat)"
      using M(2) Mpos by (simp add: frac_less2)
    moreover have "(2::rat) powi (- 1024) = 1 / overflow"
      by (simp add: overflow_def power_int_minus field_simps)
    moreover have "(2::rat) powi (- 1074) \<le> 2 powi (- 1024)" by (intro powi_mono) simp
    ultimately have low: "(2::rat) powi (- 1074) \<le> x" by linarith
    obtain y where y: "to_double x = Fin y" "0 < y" "y < 1"
      using to_double_small[OF low half] by blast
    have xp: "0 < x" "x < 1" using low powi_pos[of "- 1074"] half by linarith+
    have "\<lfloor>y\<rfloor> = 0" "\<lceil>y\<rceil> = 1" "\<lfloor>x\<rfloor> = 0" "\<lceil>x\<rceil> = 1"
      using y(2,3) xp by (simp_all add: floor_eq_iff ceiling_eq_iff)
    with y(1) show ?thesis unfolding x_def by simp
  qed
qed

section \<open>Properties of \<^verbatim>\<open>search\<close>\<close>

lemma length_insert_by: "length (insert_by cmp x ys) = Suc (length ys)"
  by (induction ys) auto

lemma length_js_sort: "length (js_sort cmp xs) = length xs"
  by (induction xs) (auto simp: js_sort_def length_insert_by)

lemma length_sort_stage: "length (sort_stage tn params xs) = length xs"
  by (auto simp: sort_stage_def length_js_sort split: option.splits)

lemma search_data:
  "data (search tn d params) = Some (page_slice params (candidates tn d params))"
  by (simp add: search_def Let_def)

lemma search_meta:
  "meta (search tn d params) = Some (make_meta params (length (candidates tn d params)))"
  by (simp add: search_def Let_def)

text \<open>
  C10. Every call of \<^verbatim>\<open>search\<close> returns a response with \<^verbatim>\<open>success\<close> true, no
  \<^verbatim>\<open>error\<close> and a page of data; its metadata repeat the request: \<^verbatim>\<open>currentPage\<close>
  is the requested page (1 when none is given) and \<^verbatim>\<open>itemsPerPage\<close> the requested
  limit (10 when none is given), whatever they are and whatever the collection holds.
\<close>

theorem search_succeeds_and_echoes_request:
  "success (search tn d params) = True \<and>
   error (search tn d params) = None \<and>
   data (search tn d params) \<noteq> None \<and>
   map_option currentPage (meta (search tn d params)) =
     Some (case page params of Some p \<Rightarrow> p | None \<Rightarrow> Fin 1) \<and>
   map_option itemsPerPage (meta (search tn d params)) =
     Some (case limit params of Some l \<Rightarrow> l | None \<Rightarrow> Fin 10)"
  by (simp add: search_def Let_def make_meta_def page_of_def limit_of_def)

subsection \<open>Whole numbers\<close>

lemma small_below_overflow: "\<bar>x\<bar> \<le> 2 ^ 53 \<Longrightarrow> \<bar>x\<bar> < overflow"
proof -
  have "(2::rat) ^ 53 < 2 ^ 1024" by (rule power_strict_increasing) simp_all
  then show "\<bar>x\<bar> \<le> 2 ^ 53 \<Longrightarrow> \<bar>x\<bar> < overflow" by (simp only: overflow_def)
qed

lemma whole_int: "\<bar>k\<bar> \<le> 2 ^ 53 \<Longrightarrow> whole (Fin (of_int k))"
proof -
  assume "\<bar>k\<bar> \<le> 2 ^ 53"
  then have "(of_int \<bar>k\<bar> :: rat) \<le> of_int (2 ^ 53)" by (simp only: of_int_le_iff)
  then have "\<bar>of_int k :: rat\<bar> \<le> 2 ^ 53" by simp
  then have "\<bar>of_int k :: rat\<bar> < overflow" by (rule small_below_overflow)
  then show ?thesis by simp
qed

lemma whole_cases:
  assumes "whole x"
  obtains k where "x = Fin (of_int k)" "\<bar>of_int k :: rat\<bar> < overflow"
proof (cases x)
  case (Fin a)
  with assms have "a = of_int \<lfloor>a\<rfloor>" "\<bar>a\<bar> < overflow" by simp_all
  then have "x = Fin (of_int \<lfloor>a\<rfloor>)" "\<bar>of_int \<lfloor>a\<rfloor> :: rat\<bar> < overflow" using Fin by simp_all
  then show ?thesis by (rule that)
qed (use assms in simp_all)

declare whole.simps(1) [simp del]

lemma to_double_half:
  assumes "1 \<le> x"
  shows "to_double x = PosInf \<or> (\<exists>y. to_double x = Fin y \<and> x / 2 \<le> y)"
proof -
  have "(2::rat) powi (- 53) \<le> 2 powi (- 1)" by (intro powi_mono) simp
  then have "x * 2 powi (- 53) \<le> x * 2 powi (- 1)" using assms by (intro mult_left_mono) simp_all
  then have "x * 2 powi (- 53) \<le> x / 2" by simp
  then have "\<And>y. x - x * 2 powi (- 53) \<le> y \<Longrightarrow> x / 2 \<le> y" by linarith
  with to_double_lower[OF assms] show ?thesis by blast
qed

lemma js_sub_one: "\<bar>P - 1\<bar> \<le> 2 ^ 53 \<Longrightarrow> js_sub (Fin (of_int P)) (Fin 1) = Fin (of_int (P - 1))"
  using to_double_int[of "P - 1"] by (simp add: js_sub_def)

lemma js_mul_whole:
  "\<bar>a * b\<bar> \<le> 2 ^ 53 \<Longrightarrow> js_mul (Fin (of_int a)) (Fin (of_int b)) = Fin (of_int (a * b))"
  using to_double_int[of "a * b"] by simp

lemma js_add_whole:
  "\<bar>a + b\<bar> \<le> 2 ^ 53 \<Longrightarrow> js_add (Fin (of_int a)) (Fin (of_int b)) = Fin (of_int (a + b))"
  using to_double_int[of "a + b"] by simp

text \<open>
  \<^verbatim>\<open>Math.ceil(totalItems / limit)\<close> is the ceiling of the quotient when the limit is
  a whole number other than 0.
\<close>

lemma ceil_div_whole:
  assumes n: "n < 2 ^ 32" and L: "L \<noteq> 0" "\<bar>of_int L :: rat\<bar> < overflow"
  shows "ceil_div n (Fin (of_int L)) = Fin (of_int \<lceil>(of_nat n :: rat) / of_int L\<rceil>)"
proof (cases "0 < L")
  case True
  have n': "0 \<le> int n" "int n < 2 ^ 32" using n by simp_all
  have M: "1 \<le> L" "(of_int L :: rat) < overflow" using True L(2) by simp_all
  obtain y where y: "to_double (of_int (int n) / of_int L) = Fin y"
    "\<lceil>y\<rceil> = \<lceil>(of_int (int n) :: rat) / of_int L\<rceil>"
    using quotient_round_whole[OF n' M] by blast
  with L(1) show ?thesis by (simp add: ceil_div_def)
next
  case False
  define M where "M = - L"
  have n': "0 \<le> int n" "int n < 2 ^ 32" using n by simp_all
  have M: "1 \<le> M" "(of_int M :: rat) < overflow" using False L by (simp_all add: M_def)
  obtain y where y: "to_double (of_int (int n) / of_int M) = Fin y"
    "\<lfloor>y\<rfloor> = \<lfloor>(of_int (int n) :: rat) / of_int M\<rfloor>"
    using quotient_round_whole[OF n' M] by blast
  have q: "(of_nat n :: rat) / of_int L = - (of_int (int n) / of_int M)" by (simp add: M_def)
  have "to_double ((of_nat n :: rat) / of_int L) = Fin (- y)"
    unfolding q to_double_minus using y(1) by simp
  moreover have "\<lceil>- y\<rceil> = \<lceil>(of_nat n :: rat) / of_int L\<rceil>"
    unfolding q using y(2) by (simp add: ceiling_minus)
  ultimately show ?thesis using L(1) by (simp add: ceil_div_def)
qed

text \<open>The ceiling \<open>c\<close> of \<open>n / L\<close> for a positive \<open>L\<close>: \<open>(c - 1) * L < n \<le> c * L\<close>.\<close>

lemma ceiling_quotient_bounds:
  assumes "1 \<le> L"
  shows "int n \<le> \<lceil>(of_nat n :: rat) / of_int L\<rceil> * L"
    and "(\<lceil>(of_nat n :: rat) / of_int L\<rceil> - 1) * L < int n"
    and "0 \<le> \<lceil>(of_nat n :: rat) / of_int L\<rceil>"
proof -
  define c where "c = \<lceil>(of_nat n :: rat) / of_int L\<rceil>"
  have lpos: "(0::rat) < of_int L" using assms by simp
  have "0 \<le> (of_nat n :: rat) / of_int L" using lpos by simp
  then show "0 \<le> \<lceil>(of_nat n :: rat) / of_int L\<rceil>" by (simp add: ceiling_le_iff[symmetric] order_trans)
  have "(of_nat n :: rat) / of_int L \<le> of_int c" unfolding c_def by (rule le_of_int_ceiling)
  then have "(of_nat n :: rat) \<le> of_int c * of_int L" using lpos by (simp add: pos_divide_le_eq)
  then have "(of_int (int n) :: rat) \<le> of_int (c * L)" by simp
  then have "int n \<le> c * L" by (simp only: of_int_le_iff)
  then show "int n \<le> \<lceil>(of_nat n :: rat) / of_int L\<rceil> * L" by (simp only: c_def)
  have "of_int c - 1 < (of_nat n :: rat) / of_int L" unfolding c_def by linarith
  then have "(of_int c - 1) * of_int L < (of_nat n :: rat)" using lpos by (simp add: pos_less_divide_eq)
  then have "(of_int ((c - 1) * L) :: rat) < of_int (int n)" by simp
  then have "(c - 1) * L < int n" by (simp only: of_int_less_iff)
  then show "(\<lceil>(of_nat n :: rat) / of_int L\<rceil> - 1) * L < int n" by (simp only: c_def)
qed

subsection \<open>Slices and pages\<close>

lemma slice_index_empty [simp]: "slice_index 0 x = 0"
  by (cases x) simp_all

lemma slice_index_nonneg:
  assumes "0 \<le> a"
  shows "slice_index len (Fin a) = min (nat \<lfloor>a\<rfloor>) len"
proof -
  have f: "0 \<le> \<lfloor>a\<rfloor>" using assms by simp
  then have "nat (min \<lfloor>a\<rfloor> (int len)) = min (nat \<lfloor>a\<rfloor>) len" by linarith
  moreover have "to_integer a = \<lfloor>a\<rfloor>" using assms by (simp add: to_integer_def)
  ultimately show ?thesis using f by simp
qed

declare slice_index.simps(4) [simp del]

lemma slice_index_large: "of_nat len \<le> a \<Longrightarrow> slice_index len (Fin a) = len"
proof -
  assume a: "of_nat len \<le> a"
  then have "(of_int (int len) :: rat) \<le> a" by simp
  then have "int len \<le> \<lfloor>a\<rfloor>" by (simp only: le_floor_iff)
  moreover have a0: "0 \<le> a" using a of_nat_0_le_iff[of len, where ?'a = rat] by linarith
  ultimately show ?thesis unfolding slice_index_nonneg[OF a0] by linarith
qed

lemma js_slice_past_end: "slice_index (length xs) start = length xs \<Longrightarrow> js_slice xs start fin = []"
  by (simp add: js_slice_def Let_def)

lemma js_slice_to_end:
  assumes "0 \<le> a" "slice_index (length xs) fin = length xs"
  shows "js_slice xs (Fin a) fin = drop (nat \<lfloor>a\<rfloor>) xs"
proof (cases "nat \<lfloor>a\<rfloor> \<le> length xs")
  case True
  then have "slice_index (length xs) (Fin a) = nat \<lfloor>a\<rfloor>"
    using assms(1) by (simp add: slice_index_nonneg min_def)
  with assms(2) show ?thesis by (simp add: js_slice_def Let_def)
next
  case False
  then have "slice_index (length xs) (Fin a) = length xs"
    using assms(1) by (simp add: slice_index_nonneg min_def)
  with assms(2) False show ?thesis by (simp add: js_slice_def Let_def)
qed

lemma js_slice_nonneg:
  assumes "0 \<le> a" "a \<le> b"
  shows "js_slice xs (Fin a) (Fin b) = take (nat \<lfloor>b\<rfloor> - nat \<lfloor>a\<rfloor>) (drop (nat \<lfloor>a\<rfloor>) xs)"
proof -
  have kf: "nat \<lfloor>a\<rfloor> \<le> nat \<lfloor>b\<rfloor>" using assms by (simp add: floor_mono nat_mono)
  have b: "0 \<le> b" using assms by simp
  show ?thesis
  proof (cases "nat \<lfloor>b\<rfloor> \<le> length xs")
    case True
    with kf assms(1) b show ?thesis
      by (simp add: js_slice_def Let_def slice_index_nonneg min_def)
  next
    case False
    then have "slice_index (length xs) (Fin b) = length xs"
      using b by (simp add: slice_index_nonneg min_def)
    then have "js_slice xs (Fin a) (Fin b) = drop (nat \<lfloor>a\<rfloor>) xs"
      using assms(1) by (rule js_slice_to_end[rotated])
    moreover have "take (nat \<lfloor>b\<rfloor> - nat \<lfloor>a\<rfloor>) (drop (nat \<lfloor>a\<rfloor>) xs) = drop (nat \<lfloor>a\<rfloor>) xs"
      using False by simp
    ultimately show ?thesis by simp
  qed
qed

lemma limit_of_page_update [simp]: "limit_of (params\<lparr>page := p\<rparr>) = limit_of params"
  by (simp add: limit_of_def)

lemma page_of_page_update [simp]: "page_of (params\<lparr>page := Some p\<rparr>) = p"
  by (simp add: page_of_def)

lemma upto_1_Suc: "[1..int (Suc k)] = [1..int k] @ [int (Suc k)]"
  by (simp add: upto_rec2)

text \<open>
  A page of a whole limit of at least 1 whose start index is computed exactly:
  the end index is exact too, or lies beyond the array.
\<close>

lemma page_slice_whole:
  assumes pg: "page_of params = Fin (of_int P)" and l: "limit_of params = Fin (of_int L)"
    and P: "1 \<le> P" and L: "1 \<le> L" and len: "length xs < 2 ^ 32"
    and b: "(P - 1) * L \<le> 2 ^ 53"
  shows "page_slice params xs = take (nat L) (drop (nat ((P - 1) * L)) xs)"
proof -
  define s where "s = (P - 1) * L"
  have s0: "0 \<le> s" using P L by (simp add: s_def)
  have "(P - 1) * 1 \<le> (P - 1) * L" using P L by (intro mult_left_mono) simp_all
  then have p1: "\<bar>P - 1\<bar> \<le> 2 ^ 53" using b P by simp
  have A: "js_sub (Fin (of_int P)) (Fin 1) = Fin (of_int (P - 1))" using p1 by (rule js_sub_one)
  have B: "js_mul (Fin (of_int (P - 1))) (Fin (of_int L)) = Fin (of_int s)"
    unfolding s_def using b s0[unfolded s_def] by (intro js_mul_whole) simp
  have ps: "page_slice params xs = js_slice xs (Fin (of_int s)) (js_add (Fin (of_int s)) (Fin (of_int L)))"
    by (simp only: page_slice_def Let_def pg l A B)
  show ?thesis
  proof (cases "s + L \<le> 2 ^ 53")
    case True
    then have "js_add (Fin (of_int s)) (Fin (of_int L)) = Fin (of_int (s + L))"
      using s0 L by (intro js_add_whole) simp
    moreover have "js_slice xs (Fin (of_int s)) (Fin (of_int (s + L)))
        = take (nat \<lfloor>of_int (s + L) :: rat\<rfloor> - nat \<lfloor>of_int s :: rat\<rfloor>) (drop (nat \<lfloor>of_int s :: rat\<rfloor>) xs)"
      using s0 L by (intro js_slice_nonneg) simp_all
    moreover have "nat (s + L) - nat s = nat L" using s0 L by simp
    ultimately show ?thesis unfolding ps s_def[symmetric] by (simp only: floor_of_int)
  next
    case False
    have big: "(2::rat) ^ 53 \<le> of_int (s + L)"
    proof -
      have "2 ^ 53 \<le> s + L" using False by simp
      then have "(of_int (2 ^ 53) :: rat) \<le> of_int (s + L)" by (simp only: of_int_le_iff)
      then show ?thesis by simp
    qed
    have far: "slice_index (length xs) (js_add (Fin (of_int s)) (Fin (of_int L))) = length xs"
    proof -
      have "to_double (of_int (s + L)) = PosInf \<or>
            (\<exists>y. to_double (of_int (s + L)) = Fin y \<and> (of_int (s + L) :: rat) / 2 \<le> y)"
        using big by (intro to_double_half) simp
      then show ?thesis
      proof
        assume "to_double (of_int (s + L)) = PosInf"
        then show ?thesis by simp
      next
        assume "\<exists>y. to_double (of_int (s + L)) = Fin y \<and> (of_int (s + L) :: rat) / 2 \<le> y"
        then obtain y where y: "to_double (of_int (s + L)) = Fin y" "(of_int (s + L) :: rat) / 2 \<le> y"
          by blast
        have "(of_nat (length xs) :: rat) < of_nat (2 ^ 32)" using len by (simp only: of_nat_less_iff)
        then have "(of_nat (length xs) :: rat) < 2 ^ 32" by simp
        with y(2) big have "of_nat (length xs) \<le> y" by simp
        then have "slice_index (length xs) (Fin y) = length xs" by (rule slice_index_large)
        with y(1) show ?thesis by simp
      qed
    qed
    have "js_slice xs (Fin (of_int s)) (js_add (Fin (of_int s)) (Fin (of_int L)))
          = drop (nat \<lfloor>of_int s :: rat\<rfloor>) xs"
      using s0 far by (intro js_slice_to_end) simp_all
    moreover have "int (length xs) < 2 ^ 32" using len by simp
    then have "length xs - nat s \<le> nat L" using False s0 L by simp
    then have "take (nat L) (drop (nat s) xs) = drop (nat s) xs" by simp
    ultimately show ?thesis unfolding ps s_def[symmetric] by (simp only: floor_of_int)
  qed
qed

lemma concat_pages:
  assumes l: "limit_of params = Fin (of_int L)" and L: "1 \<le> L" and len: "length xs < 2 ^ 32"
  shows "(int k - 1) * L \<le> 2 ^ 53 \<Longrightarrow>
         concat (map (\<lambda>p. page_slice (params\<lparr>page := Some (Fin (of_int p))\<rparr>) xs) [1..int k])
         = take (k * nat L) xs"
proof (induction k)
  case 0
  show ?case by simp
next
  case (Suc k)
  have kL: "int k * L \<le> 2 ^ 53" using Suc.prems by simp
  have "(int k - 1) * L \<le> int k * L" using L by (intro mult_right_mono) simp_all
  with kL have "(int k - 1) * L \<le> 2 ^ 53" by simp
  then have IH: "concat (map (\<lambda>p. page_slice (params\<lparr>page := Some (Fin (of_int p))\<rparr>) xs) [1..int k])
         = take (k * nat L) xs" by (rule Suc.IH)
  have "page_slice (params\<lparr>page := Some (Fin (of_int (int (Suc k))))\<rparr>) xs
        = take (nat L) (drop (nat ((int (Suc k) - 1) * L)) xs)"
    using l L len kL by (intro page_slice_whole) simp_all
  moreover have "nat ((int (Suc k) - 1) * L) = k * nat L"
    using L by (simp add: nat_mult_distrib)
  ultimately have pg: "page_slice (params\<lparr>page := Some (Fin (of_int (int (Suc k))))\<rparr>) xs
        = take (nat L) (drop (k * nat L) xs)" by simp
  have "take (k * nat L) xs @ take (nat L) (drop (k * nat L) xs) = take (k * nat L + nat L) xs"
    by (simp add: take_add)
  then have "take (k * nat L) xs @ take (nat L) (drop (k * nat L) xs) = take (Suc k * nat L) xs"
    by (simp add: add.commute)
  then show ?case
    unfolding upto_1_Suc map_append concat_append IH by (simp only: list.map concat.simps pg append_Nil2)
qed

text \<open>
  The start index of a whole page and a whole limit of at least 1 lies beyond the
  array when the exact product does.
\<close>

lemma start_past_end:
  assumes P: "1 \<le> P" and L: "1 \<le> L" and n: "int n \<le> (P - 1) * L" "n < 2 ^ 32"
  shows "slice_index n (js_mul (js_sub (Fin (of_int P)) (Fin 1)) (Fin (of_int L))) = n"
proof (cases "n = 0")
  case True
  then show ?thesis by simp
next
  case n0: False
  have nr: "(of_nat n :: rat) < 2 ^ 32"
  proof -
    have "(of_nat n :: rat) < of_nat (2 ^ 32)" using n(2) by (simp only: of_nat_less_iff)
    then show ?thesis by simp
  qed
  have Lr: "(1::rat) \<le> of_int L" using L by simp
  have far: "slice_index n (to_double x) = n" if "2 ^ 50 \<le> x" for x
  proof -
    have "1 \<le> x" using that by simp
    then have "to_double x = PosInf \<or> (\<exists>y. to_double x = Fin y \<and> x / 2 \<le> y)"
      by (rule to_double_half)
    then show ?thesis
    proof
      assume "to_double x = PosInf"
      then show ?thesis by simp
    next
      assume "\<exists>y. to_double x = Fin y \<and> x / 2 \<le> y"
      then obtain y where y: "to_double x = Fin y" "x / 2 \<le> y" by blast
      from y(2) that nr have "of_nat n \<le> y" by simp
      then have "slice_index n (Fin y) = n" by (rule slice_index_large)
      with y(1) show ?thesis by simp
    qed
  qed
  show ?thesis
  proof (cases "P - 1 \<le> 2 ^ 53")
    case True
    then have A: "js_sub (Fin (of_int P)) (Fin 1) = Fin (of_int (P - 1))"
      using P by (intro js_sub_one) simp
    show ?thesis
    proof (cases "(P - 1) * L \<le> 2 ^ 53")
      case True
      then have "js_mul (Fin (of_int (P - 1))) (Fin (of_int L)) = Fin (of_int ((P - 1) * L))"
        using P L by (intro js_mul_whole) simp
      moreover have "(of_int (int n) :: rat) \<le> of_int ((P - 1) * L)"
        using n(1) by (simp only: of_int_le_iff)
      then have "slice_index n (Fin (of_int ((P - 1) * L))) = n"
        by (intro slice_index_large) simp
      ultimately show ?thesis by (simp only: A)
    next
      case False
      then have "2 ^ 53 \<le> (P - 1) * L" by simp
      then have "(of_int (2 ^ 53) :: rat) \<le> of_int ((P - 1) * L)" by (simp only: of_int_le_iff)
      then have "(2::rat) ^ 50 \<le> of_int (P - 1) * of_int L" by simp
      then have "slice_index n (to_double (of_int (P - 1) * of_int L)) = n" by (rule far)
      then show ?thesis by (simp only: A js_mul.simps)
    qed
  next
    case False
    then have "2 ^ 53 \<le> P - 1" by simp
    then have "(of_int (2 ^ 53) :: rat) \<le> of_int (P - 1)" by (simp only: of_int_le_iff)
    then have big: "(2::rat) ^ 53 \<le> of_int (P - 1)" by simp
    then have "1 \<le> (of_int (P - 1) :: rat)" by simp
    then have d: "to_double (of_int (P - 1)) = PosInf \<or>
        (\<exists>y. to_double (of_int (P - 1)) = Fin y \<and> (of_int (P - 1) :: rat) / 2 \<le> y)"
      by (rule to_double_half)
    have A: "js_sub (Fin (of_int P)) (Fin 1) = to_double (of_int (P - 1))"
      by (simp add: js_sub_def)
    from d show ?thesis
    proof
      assume "to_double (of_int (P - 1)) = PosInf"
      then show ?thesis using L unfolding A by (simp add: inf_times_def)
    next
      assume "\<exists>y. to_double (of_int (P - 1)) = Fin y \<and> (of_int (P - 1) :: rat) / 2 \<le> y"
      then obtain y where y: "to_double (of_int (P - 1)) = Fin y" "(of_int (P - 1) :: rat) / 2 \<le> y"
        by blast
      from y(2) big have y52: "2 ^ 52 \<le> y" by simp
      then have "y * 1 \<le> y * of_int L" using Lr by (intro mult_left_mono) simp_all
      then have "y \<le> y * of_int L" by (simp only: mult_1_right)
      moreover have "(2::rat) ^ 50 \<le> 2 ^ 52" by simp
      ultimately have "2 ^ 50 \<le> y * of_int L" using y52 by (meson order_trans)
      then have "slice_index n (to_double (y * of_int L)) = n" by (rule far)
      then show ?thesis unfolding A y(1) by simp
    qed
  qed
qed

lemma mset_insert_by: "mset (insert_by cmp x ys) = add_mset x (mset ys)"
  by (induction ys) auto

lemma mset_js_sort: "mset (js_sort cmp xs) = mset xs"
  by (induction xs) (auto simp: js_sort_def mset_insert_by)

lemma mset_sort_stage: "mset (sort_stage tn params xs) = mset xs"
  by (auto simp: sort_stage_def mset_js_sort split: option.splits)

lemma candidates_page_update [simp]:
  "candidates tn d (params\<lparr>page := p\<rparr>) = candidates tn d params"
  by (simp add: candidates_def sort_stage_def filters_stage_def query_stage_def
      split: option.splits)

lemma length_candidates:
  "length (candidates tn d params) = length (filters_stage tn params (query_stage params d))"
  by (simp add: candidates_def length_sort_stage)

lemma length_candidates_le: "length (candidates tn d params) \<le> length d"
proof -
  have "length (query_stage params d) \<le> length d"
    by (simp add: query_stage_def split: option.splits)
  moreover have "length (filters_stage tn params ys) \<le> length ys" for ys
    by (simp add: filters_stage_def split: option.splits)
  ultimately show ?thesis
    unfolding length_candidates
    using le_trans by blast
qed

lemma num_lt_asym: "num_lt a b \<Longrightarrow> \<not> num_lt b a"
  by (cases a; cases b) auto

lemma candidates_no_stage:
  "query params = None \<Longrightarrow> filters params = None \<Longrightarrow> sortBy params = None \<Longrightarrow>
   candidates tn d params = d"
  by (simp add: candidates_def sort_stage_def filters_stage_def query_stage_def)

subsection \<open>Evaluating the arithmetic of doubles\<close>

text \<open>
  The double of a given rational is found from its binary exponent \<open>k\<close> and the
  whole number \<open>r\<close> nearest to its significand.
\<close>

lemma round_half_even_eq:
  assumes "\<bar>m - of_int r\<bar> < 1 / 2 \<or> (\<bar>m - of_int r\<bar> = 1 / 2 \<and> even r)"
  shows "round_half_even m = r"
proof -
  define f where "f = \<lfloor>m\<rfloor>"
  have f: "of_int f \<le> m" "m < of_int f + 1" unfolding f_def by linarith+
  have int_between: "a = b" if "(of_int a :: rat) < of_int b + 1" "(of_int b :: rat) < of_int a + 1" for a b :: int
  proof -
    have "(of_int a :: rat) < of_int (b + 1)" "(of_int b :: rat) < of_int (a + 1)" using that by simp_all
    then have "a < b + 1" "b < a + 1" by (simp_all only: of_int_less_iff)
    then show ?thesis by simp
  qed
  from assms show ?thesis
  proof
    assume a: "\<bar>m - of_int r\<bar> < 1 / 2"
    consider "m - of_int f < 1 / 2" | "1 / 2 < m - of_int f" | "m - of_int f = 1 / 2" by linarith
    then show ?thesis
    proof cases
      case 1
      have "f = r" using a f 1 by (intro int_between) linarith+
      with 1 show ?thesis by (simp add: round_half_even_def Let_def f_def)
    next
      case 2
      have "(of_int (f + 1) :: rat) = of_int f + 1" by simp
      then have "f + 1 = r" using a f 2 by (intro int_between) linarith+
      with 2 show ?thesis by (simp add: round_half_even_def Let_def f_def)
    next
      case 3
      have "(of_int f :: rat) < of_int r" "(of_int r :: rat) < of_int f + 1" using a 3 by linarith+
      then have "(of_int f :: rat) < of_int r" "(of_int r :: rat) < of_int (f + 1)" by simp_all
      then have "f < r" "r < f + 1" by (simp_all only: of_int_less_iff)
      then show ?thesis by simp
    qed
  next
    assume a: "\<bar>m - of_int r\<bar> = 1 / 2 \<and> even r"
    then consider "m = of_int r + 1 / 2" | "m = of_int r - 1 / 2" by linarith
    then show ?thesis
    proof cases
      case 1
      have "f = r" using f 1 by (intro int_between) linarith+
      with 1 a show ?thesis by (simp add: round_half_even_def Let_def f_def)
    next
      case 2
      have "(of_int (f + 1) :: rat) = of_int f + 1" by simp
      then have "f + 1 = r" using f 2 by (intro int_between) linarith+
      then have r: "r = f + 1" by simp
      have "even (f + 1)" "m - of_int f = 1 / 2" using a 2 unfolding r by auto
      then have "odd f" "m - of_int f = 1 / 2" by simp_all
      then show ?thesis unfolding r f_def by (simp add: round_half_even_def Let_def)
    qed
  qed
qed

lemma to_double_value:
  assumes "(2::rat) ^ k \<le> x" "x < 2 * 2 ^ k" "k \<le> 1022"
    and "\<bar>x * 2 ^ 52 / 2 ^ k - of_int r\<bar> < 1 / 2 \<or>
         (\<bar>x * 2 ^ 52 / 2 ^ k - of_int r\<bar> = 1 / 2 \<and> even r)"
  shows "to_double x = Fin (of_int r * 2 ^ k / 2 ^ 52)"
  using assms(1-3) round_half_even_eq[OF assms(4)] by (rule to_double_from_exponent)

lemma to_double_0 [simp]: "to_double 0 = Fin 0"
  by (simp add: to_double_def)

lemma to_double_1 [simp]: "to_double 1 = Fin 1" "to_double (- 1) = Fin (- 1)"
  using to_double_int[of 1] to_double_int[of "- 1"] by simp_all

lemma to_double_numeral [simp]:
  "numeral w \<le> (2::int) ^ 53 \<Longrightarrow> to_double (numeral w) = Fin (numeral w)"
  "numeral w \<le> (2::int) ^ 53 \<Longrightarrow> to_double (- numeral w) = Fin (- numeral w)"
  using to_double_int[of "numeral w"] to_double_int[of "- numeral w"] by simp_all

lemma page_slice_from_doubles:
  assumes "page_of params = Fin p" "limit_of params = Fin l"
    and "to_double (p - 1) = Fin a" "to_double (a * l) = Fin b" "to_double (b + l) = Fin c"
  shows "page_slice params xs = js_slice xs (Fin b) (Fin c)"
  using assms by (simp add: page_slice_def Let_def js_sub_def)

lemma floor_divide_numeral_rat [simp]:
  "\<lfloor>numeral a / numeral b :: rat\<rfloor> = numeral a div numeral b"
  using floor_divide_of_int_eq[of "numeral a" "numeral b", where ?'a = rat] by simp

lemma ceiling_divide_numeral_rat [simp]:
  "\<lceil>numeral a / numeral b :: rat\<rceil> = - (- numeral a div numeral b)"
  using ceiling_divide_eq_div[of "numeral a" "numeral b", where ?'a = rat] by simp

lemma ceiling_one_divide_numeral_rat [simp]:
  "\<lceil>1 / numeral b :: rat\<rceil> = - (- 1 div numeral b)"
  using ceiling_divide_eq_div[of 1 "numeral b", where ?'a = rat] by simp

lemma ceiling_minus_one_rat [simp]: "\<lceil>- 1 :: rat\<rceil> = - 1"
  by (simp add: ceiling_minus)

lemma ceiling_divide_neg_numeral_rat [simp]:
  "\<lceil>- (numeral a / numeral b) :: rat\<rceil> = - (numeral a div numeral b)"
  by (simp add: ceiling_minus)

lemma ceil_div_numeral:
  "n < 2 ^ 32 \<Longrightarrow> numeral w \<le> (2::int) ^ 53 \<Longrightarrow>
   ceil_div n (Fin (numeral w)) = Fin (of_int \<lceil>(of_nat n :: rat) / numeral w\<rceil>)"
  "n < 2 ^ 32 \<Longrightarrow> numeral w \<le> (2::int) ^ 53 \<Longrightarrow>
   ceil_div n (Fin (- numeral w)) = Fin (of_int \<lceil>(of_nat n :: rat) / (- numeral w)\<rceil>)"
proof -
  assume n: "n < 2 ^ 32" and w: "numeral w \<le> (2::int) ^ 53"
  have "(of_int (numeral w) :: rat) \<le> of_int (2 ^ 53)" using w by (simp only: of_int_le_iff)
  then have "\<bar>numeral w :: rat\<bar> \<le> 2 ^ 53" by simp
  then have o: "\<bar>numeral w :: rat\<bar> < overflow" by (rule small_below_overflow)
  show "ceil_div n (Fin (numeral w)) = Fin (of_int \<lceil>(of_nat n :: rat) / numeral w\<rceil>)"
    using ceil_div_whole[of n "numeral w"] n o by simp
  show "ceil_div n (Fin (- numeral w)) = Fin (of_int \<lceil>(of_nat n :: rat) / (- numeral w)\<rceil>)"
    using ceil_div_whole[of n "- numeral w"] n o by simp
qed

lemma whole_numeral [simp]:
  "numeral w \<le> (2::int) ^ 53 \<Longrightarrow> whole (Fin (numeral w))"
  using whole_int[of "numeral w"] by simp

text \<open>The pages of twelve entities for the limit 1.2, and page 46 of the limit 1.4.\<close>

lemma ceil_div_12_limit_1_2: "ceil_div 12 double_1_2 = Fin 10"
proof -
  have "to_double (12 / (5404319552844595 / 4503599627370496)) = Fin (10)"
    using to_double_value[of 3 "12 / (5404319552844595 / 4503599627370496)" 5629499534213120] by simp
  then show ?thesis by (simp add: ceil_div_def double_1_2_def)
qed

lemma limit_1_2_page_1:
  assumes "page_of params = Fin 1" "limit_of params = double_1_2"
  shows "page_slice params xs = take 1 (drop 0 xs)"
proof -
  have l: "limit_of params = Fin (5404319552844595 / 4503599627370496)"
    using assms(2) by (simp add: double_1_2_def)
  have a: "to_double (1 - 1) = Fin 0" by simp
  have b: "to_double (0 * (5404319552844595 / 4503599627370496)) = Fin 0" by simp
  have c: "to_double (0 + 5404319552844595 / 4503599627370496) = Fin (5404319552844595 / 4503599627370496)"
    using to_double_value[of 0 "0 + 5404319552844595 / 4503599627370496" 5404319552844595] by simp
  have "page_slice params xs = js_slice xs (Fin (0)) (Fin (5404319552844595 / 4503599627370496))"
    by (rule page_slice_from_doubles[OF assms(1) l a b c])
  also have "\<dots> = take (nat \<lfloor>5404319552844595 / 4503599627370496 :: rat\<rfloor> - nat \<lfloor>0 :: rat\<rfloor>)
       (drop (nat \<lfloor>0 :: rat\<rfloor>) xs)"
    by (rule js_slice_nonneg) simp_all
  also have "\<dots> = take 1 (drop 0 xs)" by simp
  finally show ?thesis .
qed

lemma limit_1_2_page_2:
  assumes "page_of params = Fin 2" "limit_of params = double_1_2"
  shows "page_slice params xs = take 1 (drop 1 xs)"
proof -
  have l: "limit_of params = Fin (5404319552844595 / 4503599627370496)"
    using assms(2) by (simp add: double_1_2_def)
  have a: "to_double (2 - 1) = Fin 1" by simp
  have b: "to_double (1 * (5404319552844595 / 4503599627370496)) = Fin (5404319552844595 / 4503599627370496)"
    using to_double_value[of 0 "1 * (5404319552844595 / 4503599627370496)" 5404319552844595] by simp
  have c: "to_double (5404319552844595 / 4503599627370496 + 5404319552844595 / 4503599627370496) = Fin (5404319552844595 / 2251799813685248)"
    using to_double_value[of 1 "5404319552844595 / 4503599627370496 + 5404319552844595 / 4503599627370496" 5404319552844595] by simp
  have "page_slice params xs = js_slice xs (Fin (5404319552844595 / 4503599627370496)) (Fin (5404319552844595 / 2251799813685248))"
    by (rule page_slice_from_doubles[OF assms(1) l a b c])
  also have "\<dots> = take (nat \<lfloor>5404319552844595 / 2251799813685248 :: rat\<rfloor> - nat \<lfloor>5404319552844595 / 4503599627370496 :: rat\<rfloor>)
       (drop (nat \<lfloor>5404319552844595 / 4503599627370496 :: rat\<rfloor>) xs)"
    by (rule js_slice_nonneg) simp_all
  also have "\<dots> = take 1 (drop 1 xs)" by simp
  finally show ?thesis .
qed

lemma limit_1_2_page_3:
  assumes "page_of params = Fin 3" "limit_of params = double_1_2"
  shows "page_slice params xs = take 1 (drop 2 xs)"
proof -
  have l: "limit_of params = Fin (5404319552844595 / 4503599627370496)"
    using assms(2) by (simp add: double_1_2_def)
  have a: "to_double (3 - 1) = Fin 2" by simp
  have b: "to_double (2 * (5404319552844595 / 4503599627370496)) = Fin (5404319552844595 / 2251799813685248)"
    using to_double_value[of 1 "2 * (5404319552844595 / 4503599627370496)" 5404319552844595] by simp
  have c: "to_double (5404319552844595 / 2251799813685248 + 5404319552844595 / 4503599627370496) = Fin (2026619832316723 / 562949953421312)"
    using to_double_value[of 1 "5404319552844595 / 2251799813685248 + 5404319552844595 / 4503599627370496" 8106479329266892] by simp
  have "page_slice params xs = js_slice xs (Fin (5404319552844595 / 2251799813685248)) (Fin (2026619832316723 / 562949953421312))"
    by (rule page_slice_from_doubles[OF assms(1) l a b c])
  also have "\<dots> = take (nat \<lfloor>2026619832316723 / 562949953421312 :: rat\<rfloor> - nat \<lfloor>5404319552844595 / 2251799813685248 :: rat\<rfloor>)
       (drop (nat \<lfloor>5404319552844595 / 2251799813685248 :: rat\<rfloor>) xs)"
    by (rule js_slice_nonneg) simp_all
  also have "\<dots> = take 1 (drop 2 xs)" by simp
  finally show ?thesis .
qed

lemma limit_1_2_page_4:
  assumes "page_of params = Fin 4" "limit_of params = double_1_2"
  shows "page_slice params xs = take 1 (drop 3 xs)"
proof -
  have l: "limit_of params = Fin (5404319552844595 / 4503599627370496)"
    using assms(2) by (simp add: double_1_2_def)
  have a: "to_double (4 - 1) = Fin 3" by simp
  have b: "to_double (3 * (5404319552844595 / 4503599627370496)) = Fin (2026619832316723 / 562949953421312)"
    using to_double_value[of 1 "3 * (5404319552844595 / 4503599627370496)" 8106479329266892] by simp
  have c: "to_double (2026619832316723 / 562949953421312 + 5404319552844595 / 4503599627370496) = Fin (5404319552844595 / 1125899906842624)"
    using to_double_value[of 2 "2026619832316723 / 562949953421312 + 5404319552844595 / 4503599627370496" 5404319552844595] by simp
  have "page_slice params xs = js_slice xs (Fin (2026619832316723 / 562949953421312)) (Fin (5404319552844595 / 1125899906842624))"
    by (rule page_slice_from_doubles[OF assms(1) l a b c])
  also have "\<dots> = take (nat \<lfloor>5404319552844595 / 1125899906842624 :: rat\<rfloor> - nat \<lfloor>2026619832316723 / 562949953421312 :: rat\<rfloor>)
       (drop (nat \<lfloor>2026619832316723 / 562949953421312 :: rat\<rfloor>) xs)"
    by (rule js_slice_nonneg) simp_all
  also have "\<dots> = take 1 (drop 3 xs)" by simp
  finally show ?thesis .
qed

lemma limit_1_2_page_5:
  assumes "page_of params = Fin 5" "limit_of params = double_1_2"
  shows "page_slice params xs = take 2 (drop 4 xs)"
proof -
  have l: "limit_of params = Fin (5404319552844595 / 4503599627370496)"
    using assms(2) by (simp add: double_1_2_def)
  have a: "to_double (5 - 1) = Fin 4" by simp
  have b: "to_double (4 * (5404319552844595 / 4503599627370496)) = Fin (5404319552844595 / 1125899906842624)"
    using to_double_value[of 2 "4 * (5404319552844595 / 4503599627370496)" 5404319552844595] by simp
  have c: "to_double (5404319552844595 / 1125899906842624 + 5404319552844595 / 4503599627370496) = Fin (6)"
    using to_double_value[of 2 "5404319552844595 / 1125899906842624 + 5404319552844595 / 4503599627370496" 6755399441055744] by simp
  have "page_slice params xs = js_slice xs (Fin (5404319552844595 / 1125899906842624)) (Fin (6))"
    by (rule page_slice_from_doubles[OF assms(1) l a b c])
  also have "\<dots> = take (nat \<lfloor>6 :: rat\<rfloor> - nat \<lfloor>5404319552844595 / 1125899906842624 :: rat\<rfloor>)
       (drop (nat \<lfloor>5404319552844595 / 1125899906842624 :: rat\<rfloor>) xs)"
    by (rule js_slice_nonneg) simp_all
  also have "\<dots> = take 2 (drop 4 xs)" by simp
  finally show ?thesis .
qed

lemma limit_1_2_page_6:
  assumes "page_of params = Fin 6" "limit_of params = double_1_2"
  shows "page_slice params xs = take 1 (drop 6 xs)"
proof -
  have l: "limit_of params = Fin (5404319552844595 / 4503599627370496)"
    using assms(2) by (simp add: double_1_2_def)
  have a: "to_double (6 - 1) = Fin 5" by simp
  have b: "to_double (5 * (5404319552844595 / 4503599627370496)) = Fin (6)"
    using to_double_value[of 2 "5 * (5404319552844595 / 4503599627370496)" 6755399441055744] by simp
  have c: "to_double (6 + 5404319552844595 / 4503599627370496) = Fin (8106479329266893 / 1125899906842624)"
    using to_double_value[of 2 "6 + 5404319552844595 / 4503599627370496" 8106479329266893] by simp
  have "page_slice params xs = js_slice xs (Fin (6)) (Fin (8106479329266893 / 1125899906842624))"
    by (rule page_slice_from_doubles[OF assms(1) l a b c])
  also have "\<dots> = take (nat \<lfloor>8106479329266893 / 1125899906842624 :: rat\<rfloor> - nat \<lfloor>6 :: rat\<rfloor>)
       (drop (nat \<lfloor>6 :: rat\<rfloor>) xs)"
    by (rule js_slice_nonneg) simp_all
  also have "\<dots> = take 1 (drop 6 xs)" by simp
  finally show ?thesis .
qed

lemma limit_1_2_page_7:
  assumes "page_of params = Fin 7" "limit_of params = double_1_2"
  shows "page_slice params xs = take 1 (drop 7 xs)"
proof -
  have l: "limit_of params = Fin (5404319552844595 / 4503599627370496)"
    using assms(2) by (simp add: double_1_2_def)
  have a: "to_double (7 - 1) = Fin 6" by simp
  have b: "to_double (6 * (5404319552844595 / 4503599627370496)) = Fin (2026619832316723 / 281474976710656)"
    using to_double_value[of 2 "6 * (5404319552844595 / 4503599627370496)" 8106479329266892] by simp
  have c: "to_double (2026619832316723 / 281474976710656 + 5404319552844595 / 4503599627370496) = Fin (1182194902184755 / 140737488355328)"
    using to_double_value[of 3 "2026619832316723 / 281474976710656 + 5404319552844595 / 4503599627370496" 4728779608739020] by simp
  have "page_slice params xs = js_slice xs (Fin (2026619832316723 / 281474976710656)) (Fin (1182194902184755 / 140737488355328))"
    by (rule page_slice_from_doubles[OF assms(1) l a b c])
  also have "\<dots> = take (nat \<lfloor>1182194902184755 / 140737488355328 :: rat\<rfloor> - nat \<lfloor>2026619832316723 / 281474976710656 :: rat\<rfloor>)
       (drop (nat \<lfloor>2026619832316723 / 281474976710656 :: rat\<rfloor>) xs)"
    by (rule js_slice_nonneg) simp_all
  also have "\<dots> = take 1 (drop 7 xs)" by simp
  finally show ?thesis .
qed

lemma limit_1_2_page_8:
  assumes "page_of params = Fin 8" "limit_of params = double_1_2"
  shows "page_slice params xs = take 1 (drop 8 xs)"
proof -
  have l: "limit_of params = Fin (5404319552844595 / 4503599627370496)"
    using assms(2) by (simp add: double_1_2_def)
  have a: "to_double (8 - 1) = Fin 7" by simp
  have b: "to_double (7 * (5404319552844595 / 4503599627370496)) = Fin (4728779608739021 / 562949953421312)"
    using to_double_value[of 3 "7 * (5404319552844595 / 4503599627370496)" 4728779608739021] by simp
  have c: "to_double (4728779608739021 / 562949953421312 + 5404319552844595 / 4503599627370496) = Fin (5404319552844595 / 562949953421312)"
    using to_double_value[of 3 "4728779608739021 / 562949953421312 + 5404319552844595 / 4503599627370496" 5404319552844595] by simp
  have "page_slice params xs = js_slice xs (Fin (4728779608739021 / 562949953421312)) (Fin (5404319552844595 / 562949953421312))"
    by (rule page_slice_from_doubles[OF assms(1) l a b c])
  also have "\<dots> = take (nat \<lfloor>5404319552844595 / 562949953421312 :: rat\<rfloor> - nat \<lfloor>4728779608739021 / 562949953421312 :: rat\<rfloor>)
       (drop (nat \<lfloor>4728779608739021 / 562949953421312 :: rat\<rfloor>) xs)"
    by (rule js_slice_nonneg) simp_all
  also have "\<dots> = take 1 (drop 8 xs)" by simp
  finally show ?thesis .
qed

lemma limit_1_2_page_9:
  assumes "page_of params = Fin 9" "limit_of params = double_1_2"
  shows "page_slice params xs = take 1 (drop 9 xs)"
proof -
  have l: "limit_of params = Fin (5404319552844595 / 4503599627370496)"
    using assms(2) by (simp add: double_1_2_def)
  have a: "to_double (9 - 1) = Fin 8" by simp
  have b: "to_double (8 * (5404319552844595 / 4503599627370496)) = Fin (5404319552844595 / 562949953421312)"
    using to_double_value[of 3 "8 * (5404319552844595 / 4503599627370496)" 5404319552844595] by simp
  have c: "to_double (5404319552844595 / 562949953421312 + 5404319552844595 / 4503599627370496) = Fin (6079859496950169 / 562949953421312)"
    using to_double_value[of 3 "5404319552844595 / 562949953421312 + 5404319552844595 / 4503599627370496" 6079859496950169] by simp
  have "page_slice params xs = js_slice xs (Fin (5404319552844595 / 562949953421312)) (Fin (6079859496950169 / 562949953421312))"
    by (rule page_slice_from_doubles[OF assms(1) l a b c])
  also have "\<dots> = take (nat \<lfloor>6079859496950169 / 562949953421312 :: rat\<rfloor> - nat \<lfloor>5404319552844595 / 562949953421312 :: rat\<rfloor>)
       (drop (nat \<lfloor>5404319552844595 / 562949953421312 :: rat\<rfloor>) xs)"
    by (rule js_slice_nonneg) simp_all
  also have "\<dots> = take 1 (drop 9 xs)" by simp
  finally show ?thesis .
qed

lemma limit_1_2_page_10:
  assumes "page_of params = Fin 10" "limit_of params = double_1_2"
  shows "page_slice params xs = take 1 (drop 10 xs)"
proof -
  have l: "limit_of params = Fin (5404319552844595 / 4503599627370496)"
    using assms(2) by (simp add: double_1_2_def)
  have a: "to_double (10 - 1) = Fin 9" by simp
  have b: "to_double (9 * (5404319552844595 / 4503599627370496)) = Fin (6079859496950169 / 562949953421312)"
    using to_double_value[of 3 "9 * (5404319552844595 / 4503599627370496)" 6079859496950169] by simp
  have c: "to_double (6079859496950169 / 562949953421312 + 5404319552844595 / 4503599627370496) = Fin (6755399441055743 / 562949953421312)"
    using to_double_value[of 3 "6079859496950169 / 562949953421312 + 5404319552844595 / 4503599627370496" 6755399441055743] by simp
  have "page_slice params xs = js_slice xs (Fin (6079859496950169 / 562949953421312)) (Fin (6755399441055743 / 562949953421312))"
    by (rule page_slice_from_doubles[OF assms(1) l a b c])
  also have "\<dots> = take (nat \<lfloor>6755399441055743 / 562949953421312 :: rat\<rfloor> - nat \<lfloor>6079859496950169 / 562949953421312 :: rat\<rfloor>)
       (drop (nat \<lfloor>6079859496950169 / 562949953421312 :: rat\<rfloor>) xs)"
    by (rule js_slice_nonneg) simp_all
  also have "\<dots> = take 1 (drop 10 xs)" by simp
  finally show ?thesis .
qed

lemma ceil_div_63_limit_1_4: "ceil_div 63 double_1_4 = Fin 45"
proof -
  have "to_double (63 / (3152519739159347 / 2251799813685248)) = Fin (45)"
    using to_double_value[of 5 "63 / (3152519739159347 / 2251799813685248)" 6333186975989760] by simp
  then show ?thesis by (simp add: ceil_div_def double_1_4_def)
qed

lemma limit_1_4_page_46:
  assumes "page_of params = Fin 46" "limit_of params = double_1_4"
  shows "page_slice params xs = take 2 (drop 62 xs)"
proof -
  have l: "limit_of params = Fin (3152519739159347 / 2251799813685248)"
    using assms(2) by (simp add: double_1_4_def)
  have a: "to_double (46 - 1) = Fin 45" by simp
  have b: "to_double (45 * (3152519739159347 / 2251799813685248)) = Fin (8866461766385663 / 140737488355328)"
    using to_double_value[of 5 "45 * (3152519739159347 / 2251799813685248)" 8866461766385663] by simp
  have c: "to_double (8866461766385663 / 140737488355328 + 3152519739159347 / 2251799813685248) = Fin (4531747125041561 / 70368744177664)"
    using to_double_value[of 6 "8866461766385663 / 140737488355328 + 3152519739159347 / 2251799813685248" 4531747125041561] by simp
  have "page_slice params xs = js_slice xs (Fin (8866461766385663 / 140737488355328)) (Fin (4531747125041561 / 70368744177664))"
    by (rule page_slice_from_doubles[OF assms(1) l a b c])
  also have "\<dots> = take (nat \<lfloor>4531747125041561 / 70368744177664 :: rat\<rfloor> - nat \<lfloor>8866461766385663 / 140737488355328 :: rat\<rfloor>)
       (drop (nat \<lfloor>8866461766385663 / 140737488355328 :: rat\<rfloor>) xs)"
    by (rule js_slice_nonneg) simp_all
  also have "\<dots> = take 2 (drop 62 xs)" by simp
  finally show ?thesis .
qed

text \<open>The numbers of the examples are doubles.\<close>

lemma example_doubles:
  "is_double double_1_2" "is_double double_1_4" "is_double (Fin (13 / 4))"
proof -
  show "is_double double_1_2"
    using to_double_value[of 0 "5404319552844595 / 4503599627370496" 5404319552844595] by (simp add: double_1_2_def)
  show "is_double double_1_4"
    using to_double_value[of 0 "3152519739159347 / 2251799813685248" 6305039478318694] by (simp add: double_1_4_def)
  show "is_double (Fin (13 / 4))"
    using to_double_value[of 1 "13 / 4" 7318349394477056] by simp
qed

lemma twelve_orders_eq:
  "twelve_orders =
     [order ''a'' ''Alice'', order ''b'' ''Alice'', order ''c'' ''Alice'', order ''d'' ''Alice'',
      order ''e'' ''Alice'', order ''f'' ''Alice'', order ''g'' ''Alice'', order ''h'' ''Alice'',
      order ''i'' ''Alice'', order ''j'' ''Alice'', order ''k'' ''Alice'', order ''l'' ''Alice'']"
  by (simp add: twelve_orders_def)

lemma params_simps [simp]:
  "query (no_params\<lparr>limit := l\<rparr>) = None" "filters (no_params\<lparr>limit := l\<rparr>) = None"
  "sortBy (no_params\<lparr>limit := l\<rparr>) = None"
  "limit_of (no_params\<lparr>limit := Some x\<rparr>) = x"
  "limit_of (no_params\<lparr>limit := Some x, page := p\<rparr>) = x"
  "page_of (no_params\<lparr>limit := l\<rparr>) = Fin 1"
  by (simp_all add: no_params_def limit_of_def page_of_def)

lemma search_no_stage:
  assumes "query params = None" "filters params = None" "sortBy params = None"
  shows "data (search tn d params) = Some (page_slice params d)"
    and "meta (search tn d params) = Some (make_meta params (length d))"
  using assms by (simp_all add: search_data search_meta candidates_no_stage)

subsection \<open>The pages of a result\<close>

text \<open>
  C1, as amended. For a limit that is a whole number of at least 1 (given, or the
  default 10) and a collection that is an array (of fewer than \<open>2 ^ 32\<close> entities),
  the number of pages is a whole number \<open>tp\<close>, and the pages 1 to \<open>tp\<close> of a request,
  one after the other, are the filtered and sorted candidates: each in its place,
  once. The candidates are the entities that pass the free-text and the structured
  filters, each as often as the collection holds it.
\<close>

theorem pagination_round_trip:
  assumes "whole (limit_of params)" and "num_lt (Fin 0) (limit_of params)"
    and "length d < 2 ^ 32"
  shows "\<exists>tp. map_option totalPages (meta (search tn d params)) = Some (Fin (of_int tp)) \<and>
           concat (map (\<lambda>p. case data (search tn d (params\<lparr>page := Some (Fin (of_int p))\<rparr>)) of
                               Some xs \<Rightarrow> xs | None \<Rightarrow> []) [1..tp])
           = candidates tn d params \<and>
           mset (candidates tn d params) = mset (filters_stage tn params (query_stage params d))"
proof -
  let ?c = "candidates tn d params"
  obtain L where L: "limit_of params = Fin (of_int L)" "\<bar>of_int L :: rat\<bar> < overflow"
    using assms(1) by (rule whole_cases)
  have L1: "1 \<le> L" using assms(2) L(1) by simp
  have len: "length ?c < 2 ^ 32"
    using length_candidates_le[of tn d params] assms(3) by (rule le_less_trans)
  define c where "c = \<lceil>(of_nat (length ?c) :: rat) / of_int L\<rceil>"
  have tp: "ceil_div (length ?c) (limit_of params) = Fin (of_int c)"
    unfolding L(1) c_def using len L1 L(2) by (intro ceil_div_whole) simp_all
  have b: "int (length ?c) \<le> c * L" "(c - 1) * L < int (length ?c)" "0 \<le> c"
    unfolding c_def by (rule ceiling_quotient_bounds[OF L1])+
  have "int (length ?c) < 2 ^ 32" using len by simp
  with b(2,3) have "(int (nat c) - 1) * L \<le> 2 ^ 53" by simp
  then have "concat (map (\<lambda>p. page_slice (params\<lparr>page := Some (Fin (of_int p))\<rparr>) ?c) [1..int (nat c)])
      = take (nat c * nat L) ?c"
    by (rule concat_pages[OF L(1) L1 len])
  moreover have "length ?c \<le> nat c * nat L"
    using b(1,3) L1 by (simp add: nat_mult_distrib[symmetric] nat_le_iff)
  ultimately have "concat (map (\<lambda>p. page_slice (params\<lparr>page := Some (Fin (of_int p))\<rparr>) ?c) [1..c]) = ?c"
    using b(3) by simp
  moreover have "map_option totalPages (meta (search tn d params)) = Some (Fin (of_int c))"
    by (simp add: search_meta make_meta_def Let_def tp)
  moreover have "mset ?c = mset (filters_stage tn params (query_stage params d))"
    by (simp add: candidates_def mset_sort_stage)
  ultimately show ?thesis
    by (intro exI[of _ c]) (simp add: search_data)
qed

theorem pagination_round_trip_witness:
  "whole (limit_of (no_params\<lparr>limit := Some (Fin 2)\<rparr>)) \<and>
   num_lt (Fin 0) (limit_of (no_params\<lparr>limit := Some (Fin 2)\<rparr>)) \<and>
   length [order ''a'' ''Alice'', order ''b'' ''bob'', order ''c'' ''Alicia''] < 2 ^ 32 \<and>
   (\<exists>tp. map_option totalPages
            (meta (search tn0 [order ''a'' ''Alice'', order ''b'' ''bob'', order ''c'' ''Alicia'']
               (no_params\<lparr>limit := Some (Fin 2)\<rparr>))) = Some (Fin (of_int tp)) \<and>
      concat (map (\<lambda>p. case data (search tn0 [order ''a'' ''Alice'', order ''b'' ''bob'', order ''c'' ''Alicia'']
                 (no_params\<lparr>limit := Some (Fin 2), page := Some (Fin (of_int p))\<rparr>)) of
                               Some xs \<Rightarrow> xs | None \<Rightarrow> []) [1..tp])
      = [order ''a'' ''Alice'', order ''b'' ''bob'', order ''c'' ''Alicia''])"
proof -
  let ?d = "[order ''a'' ''Alice'', order ''b'' ''bob'', order ''c'' ''Alicia'']"
  let ?p = "no_params\<lparr>limit := Some (Fin 2)\<rparr>"
  have h: "whole (limit_of ?p)" "num_lt (Fin 0) (limit_of ?p)" "length ?d < 2 ^ 32"
    by simp_all
  have c: "candidates tn0 ?d ?p = ?d"
    by (simp add: candidates_no_stage)
  show ?thesis
    using h pagination_round_trip[OF h, of tn0] by (simp only: c) blast
qed

text \<open>
  The limit has to be a whole number. For the limit 1.2 and twelve candidates,
  \<^verbatim>\<open>totalPages\<close> is 10 (the double quotient \<^verbatim>\<open>12 / 1.2\<close> is 10), the ten pages
  are cut at 0, 1, 2, 3, 4, 6, 7, 8, 9, 10 and 11 (the sum \<^verbatim>\<open>9 * 1.2 + 1.2\<close> is
  11.999999999999998), and the twelfth candidate is on no page. For the limit
  \<^verbatim>\<open>Infinity\<close> there is no page at all, and page 1 is empty (\<^verbatim>\<open>0 * Infinity\<close> is
  \<^verbatim>\<open>NaN\<close>).
\<close>

theorem fractional_limit_counterexample:
  "is_double double_1_2 \<and> num_lt (Fin 1) double_1_2 \<and>
   candidates tn0 twelve_orders (no_params\<lparr>limit := Some double_1_2\<rparr>) = twelve_orders \<and>
   length twelve_orders = 12 \<and> last twelve_orders = order ''l'' ''Alice'' \<and>
   map_option totalPages (meta (search tn0 twelve_orders (no_params\<lparr>limit := Some double_1_2\<rparr>)))
     = Some (Fin 10) \<and>
   data (search tn0 twelve_orders (no_params\<lparr>limit := Some double_1_2, page := Some (Fin 1)\<rparr>))
     = Some [order ''a'' ''Alice''] \<and>
   data (search tn0 twelve_orders (no_params\<lparr>limit := Some double_1_2, page := Some (Fin 2)\<rparr>))
     = Some [order ''b'' ''Alice''] \<and>
   data (search tn0 twelve_orders (no_params\<lparr>limit := Some double_1_2, page := Some (Fin 3)\<rparr>))
     = Some [order ''c'' ''Alice''] \<and>
   data (search tn0 twelve_orders (no_params\<lparr>limit := Some double_1_2, page := Some (Fin 4)\<rparr>))
     = Some [order ''d'' ''Alice''] \<and>
   data (search tn0 twelve_orders (no_params\<lparr>limit := Some double_1_2, page := Some (Fin 5)\<rparr>))
     = Some [order ''e'' ''Alice'', order ''f'' ''Alice''] \<and>
   data (search tn0 twelve_orders (no_params\<lparr>limit := Some double_1_2, page := Some (Fin 6)\<rparr>))
     = Some [order ''g'' ''Alice''] \<and>
   data (search tn0 twelve_orders (no_params\<lparr>limit := Some double_1_2, page := Some (Fin 7)\<rparr>))
     = Some [order ''h'' ''Alice''] \<and>
   data (search tn0 twelve_orders (no_params\<lparr>limit := Some double_1_2, page := Some (Fin 8)\<rparr>))
     = Some [order ''i'' ''Alice''] \<and>
   data (search tn0 twelve_orders (no_params\<lparr>limit := Some double_1_2, page := Some (Fin 9)\<rparr>))
     = Some [order ''j'' ''Alice''] \<and>
   data (search tn0 twelve_orders (no_params\<lparr>limit := Some double_1_2, page := Some (Fin 10)\<rparr>))
     = Some [order ''k'' ''Alice''] \<and>
   num_lt (Fin 1) PosInf \<and>
   map_option totalPages (meta (search tn0 [order ''a'' ''Alice''] (no_params\<lparr>limit := Some PosInf\<rparr>)))
     = Some (Fin 0) \<and>
   data (search tn0 [order ''a'' ''Alice''] (no_params\<lparr>limit := Some PosInf, page := Some (Fin 1)\<rparr>))
     = Some []"
proof -
  let ?p = "\<lambda>p. no_params\<lparr>limit := Some double_1_2, page := Some (Fin p)\<rparr>"
  have n: "query (?p p) = None" "filters (?p p) = None" "sortBy (?p p) = None"
    "limit_of (?p p) = double_1_2" "page_of (?p p) = Fin p" for p
    by (simp_all add: no_params_def limit_of_def page_of_def)
  have pages: "data (search tn0 xs (?p 1)) = Some (take 1 (drop 0 xs))"
    "data (search tn0 xs (?p 2)) = Some (take 1 (drop 1 xs))"
    "data (search tn0 xs (?p 3)) = Some (take 1 (drop 2 xs))"
    "data (search tn0 xs (?p 4)) = Some (take 1 (drop 3 xs))"
    "data (search tn0 xs (?p 5)) = Some (take 2 (drop 4 xs))"
    "data (search tn0 xs (?p 6)) = Some (take 1 (drop 6 xs))"
    "data (search tn0 xs (?p 7)) = Some (take 1 (drop 7 xs))"
    "data (search tn0 xs (?p 8)) = Some (take 1 (drop 8 xs))"
    "data (search tn0 xs (?p 9)) = Some (take 1 (drop 9 xs))"
    "data (search tn0 xs (?p 10)) = Some (take 1 (drop 10 xs))" for xs
    by (simp_all only: search_no_stage(1)[OF n(1,2,3)] limit_1_2_page_1[OF n(5,4)]
        limit_1_2_page_2[OF n(5,4)] limit_1_2_page_3[OF n(5,4)] limit_1_2_page_4[OF n(5,4)]
        limit_1_2_page_5[OF n(5,4)] limit_1_2_page_6[OF n(5,4)] limit_1_2_page_7[OF n(5,4)]
        limit_1_2_page_8[OF n(5,4)] limit_1_2_page_9[OF n(5,4)] limit_1_2_page_10[OF n(5,4)])
  have 1: "is_double double_1_2" "num_lt (Fin 1) double_1_2"
    using example_doubles(1) by (simp_all add: double_1_2_def)
  have 2: "candidates tn0 twelve_orders (no_params\<lparr>limit := Some double_1_2\<rparr>) = twelve_orders"
    by (simp add: candidates_no_stage)
  have 3: "length twelve_orders = 12" "last twelve_orders = order ''l'' ''Alice''"
    by (simp_all add: twelve_orders_def)
  have 4: "map_option totalPages (meta (search tn0 twelve_orders (no_params\<lparr>limit := Some double_1_2\<rparr>)))
     = Some (Fin 10)"
    by (simp add: search_no_stage 3 make_meta_def Let_def ceil_div_12_limit_1_2)
  have 5:
    "data (search tn0 twelve_orders (no_params\<lparr>limit := Some double_1_2, page := Some (Fin 1)\<rparr>))
       = Some [order ''a'' ''Alice'']"
    "data (search tn0 twelve_orders (no_params\<lparr>limit := Some double_1_2, page := Some (Fin 2)\<rparr>))
       = Some [order ''b'' ''Alice'']"
    "data (search tn0 twelve_orders (no_params\<lparr>limit := Some double_1_2, page := Some (Fin 3)\<rparr>))
       = Some [order ''c'' ''Alice'']"
    "data (search tn0 twelve_orders (no_params\<lparr>limit := Some double_1_2, page := Some (Fin 4)\<rparr>))
       = Some [order ''d'' ''Alice'']"
    "data (search tn0 twelve_orders (no_params\<lparr>limit := Some double_1_2, page := Some (Fin 5)\<rparr>))
       = Some [order ''e'' ''Alice'', order ''f'' ''Alice'']"
    "data (search tn0 twelve_orders (no_params\<lparr>limit := Some double_1_2, page := Some (Fin 6)\<rparr>))
       = Some [order ''g'' ''Alice'']"
    "data (search tn0 twelve_orders (no_params\<lparr>limit := Some double_1_2, page := Some (Fin 7)\<rparr>))
       = Some [order ''h'' ''Alice'']"
    "data (search tn0 twelve_orders (no_params\<lparr>limit := Some double_1_2, page := Some (Fin 8)\<rparr>))
       = Some [order ''i'' ''Alice'']"
    "data (search tn0 twelve_orders (no_params\<lparr>limit := Some double_1_2, page := Some (Fin 9)\<rparr>))
       = Some [order ''j'' ''Alice'']"
    "data (search tn0 twelve_orders (no_params\<lparr>limit := Some double_1_2, page := Some (Fin 10)\<rparr>))
       = Some [order ''k'' ''Alice'']"
    by (simp_all add: pages twelve_orders_eq)
  have 6: "map_option totalPages (meta (search tn0 [order ''a'' ''Alice''] (no_params\<lparr>limit := Some PosInf\<rparr>)))
     = Some (Fin 0)"
    by (simp add: search_no_stage make_meta_def Let_def ceil_div_def)
  have 7: "data (search tn0 [order ''a'' ''Alice''] (no_params\<lparr>limit := Some PosInf, page := Some (Fin 1)\<rparr>))
     = Some []"
    by (simp add: search_def candidates_no_stage no_params_def page_slice_def page_of_def
        limit_of_def js_sub_def inf_times_def js_slice_def Let_def)
  have 8: "num_lt (Fin 1) PosInf" by simp
  from 1 2 3 4 5 6 7 8 show ?thesis by blast
qed

text \<open>
  C2, as amended. For every call of \<^verbatim>\<open>search\<close> on a collection that is an array (of
  fewer than \<open>2 ^ 32\<close> entities): \<^verbatim>\<open>totalItems\<close> is the number of entities left by the
  free-text and the structured filters; \<^verbatim>\<open>totalPages\<close> is
  \<^verbatim>\<open>Math.ceil(totalItems / limit)\<close>, which is the ceiling of the quotient when the
  limit is a whole number other than 0; \<^verbatim>\<open>hasNextPage\<close> is
  \<^verbatim>\<open>currentPage < totalPages\<close> and \<^verbatim>\<open>hasPreviousPage\<close> is \<^verbatim>\<open>currentPage > 1\<close>. For a
  whole limit of at least 1 and a whole page greater than \<^verbatim>\<open>totalPages\<close> the page of
  data is empty and \<^verbatim>\<open>hasNextPage\<close> is false. With 25 candidates, limit 10 and page 3
  the call returns 5 entities, 3 pages, no next page and a previous page.
\<close>

theorem pagination_meta_correct:
  assumes "length d < 2 ^ 32"
  shows "\<exists>m xs. meta (search tn d params) = Some m \<and> data (search tn d params) = Some xs \<and>
     totalItems m = length (filters_stage tn params (query_stage params d)) \<and>
     totalPages m = ceil_div (totalItems m) (limit_of params) \<and>
     (\<forall>a. limit_of params = Fin a \<and> whole (Fin a) \<and> a \<noteq> 0 \<longrightarrow>
        totalPages m = Fin (of_int \<lceil>(of_nat (totalItems m) :: rat) / a\<rceil>)) \<and>
     hasNextPage m = num_lt (currentPage m) (totalPages m) \<and>
     hasPreviousPage m = num_lt (Fin 1) (currentPage m) \<and>
     (whole (page_of params) \<and> whole (limit_of params) \<and> num_lt (Fin 0) (limit_of params) \<and>
      num_lt (totalPages m) (page_of params) \<longrightarrow>
        xs = [] \<and> \<not> hasNextPage m) \<and>
     (totalItems m = 25 \<and> limit params = Some (Fin 10) \<and> page params = Some (Fin 3) \<longrightarrow>
        length xs = 5 \<and> totalPages m = Fin 3 \<and> \<not> hasNextPage m \<and> hasPreviousPage m)"
proof -
  let ?c = "candidates tn d params"
  let ?m = "make_meta params (length ?c)"
  have len: "length ?c < 2 ^ 32"
    using length_candidates_le[of tn d params] assms by (rule le_less_trans)
  have 1: "totalItems ?m = length (filters_stage tn params (query_stage params d))"
    by (simp add: make_meta_def Let_def length_candidates)
  have 2: "totalPages ?m = ceil_div (totalItems ?m) (limit_of params)"
    by (simp add: make_meta_def Let_def)
  have 3: "\<forall>a. limit_of params = Fin a \<and> whole (Fin a) \<and> a \<noteq> 0 \<longrightarrow>
        totalPages ?m = Fin (of_int \<lceil>(of_nat (totalItems ?m) :: rat) / a\<rceil>)"
  proof (intro allI impI)
    fix a
    assume a: "limit_of params = Fin a \<and> whole (Fin a) \<and> a \<noteq> 0"
    then obtain L where L: "Fin a = Fin (of_int L)" "\<bar>of_int L :: rat\<bar> < overflow"
      using whole_cases[of "Fin a"] by blast
    then have aL: "a = of_int L" by simp
    with a have "L \<noteq> 0" by auto
    then have "ceil_div (length ?c) (Fin (of_int L))
        = Fin (of_int \<lceil>(of_nat (length ?c) :: rat) / of_int L\<rceil>)"
      using len L(2) by (intro ceil_div_whole) simp_all
    with a show "totalPages ?m = Fin (of_int \<lceil>(of_nat (totalItems ?m) :: rat) / a\<rceil>)"
      by (simp add: make_meta_def Let_def aL)
  qed
  have 4: "hasNextPage ?m = num_lt (currentPage ?m) (totalPages ?m)"
    by (simp add: make_meta_def Let_def)
  have 5: "hasPreviousPage ?m = num_lt (Fin 1) (currentPage ?m)"
    by (simp add: make_meta_def Let_def)
  have 6: "whole (page_of params) \<and> whole (limit_of params) \<and> num_lt (Fin 0) (limit_of params) \<and>
      num_lt (totalPages ?m) (page_of params) \<longrightarrow>
        page_slice params ?c = [] \<and> \<not> hasNextPage ?m"
  proof (intro impI)
    assume a: "whole (page_of params) \<and> whole (limit_of params) \<and> num_lt (Fin 0) (limit_of params) \<and>
      num_lt (totalPages ?m) (page_of params)"
    obtain L where L: "limit_of params = Fin (of_int L)" "\<bar>of_int L :: rat\<bar> < overflow"
      using a whole_cases[of "limit_of params"] by blast
    obtain P where P: "page_of params = Fin (of_int P)"
      using a whole_cases[of "page_of params"] by blast
    have L1: "1 \<le> L" using a L(1) by simp
    define c where "c = \<lceil>(of_nat (length ?c) :: rat) / of_int L\<rceil>"
    have tp: "ceil_div (length ?c) (limit_of params) = Fin (of_int c)"
      unfolding L(1) c_def using len L1 L(2) by (intro ceil_div_whole) simp_all
    have b: "int (length ?c) \<le> c * L" "0 \<le> c"
      unfolding c_def by (rule ceiling_quotient_bounds[OF L1])+
    have "num_lt (Fin (of_int c)) (Fin (of_int P))"
      using a by (simp add: make_meta_def Let_def tp P)
    then have cP: "c < P" by simp
    then have "c * L \<le> (P - 1) * L" using L1 by (intro mult_right_mono) simp_all
    with b(1) have n: "int (length ?c) \<le> (P - 1) * L" by simp
    have P1: "1 \<le> P" using cP b(2) by simp
    have "slice_index (length ?c) (js_mul (js_sub (Fin (of_int P)) (Fin 1)) (Fin (of_int L)))
        = length ?c"
      using P1 L1 n len by (rule start_past_end)
    then have "page_slice params ?c = []"
      by (simp add: page_slice_def Let_def P L(1) js_slice_past_end)
    moreover have "\<not> hasNextPage ?m"
      using a num_lt_asym[of "totalPages ?m" "page_of params"] by (simp add: make_meta_def Let_def)
    ultimately show "page_slice params ?c = [] \<and> \<not> hasNextPage ?m" by simp
  qed
  have 7: "totalItems ?m = 25 \<and> limit params = Some (Fin 10) \<and> page params = Some (Fin 3) \<longrightarrow>
        length (page_slice params ?c) = 5 \<and> totalPages ?m = Fin 3 \<and> \<not> hasNextPage ?m \<and>
        hasPreviousPage ?m"
  proof (intro impI)
    assume a: "totalItems ?m = 25 \<and> limit params = Some (Fin 10) \<and> page params = Some (Fin 3)"
    then have n: "length ?c = 25" by (simp add: make_meta_def Let_def)
    have pl: "page_of params = Fin (of_int 3)" "limit_of params = Fin (of_int 10)"
      using a by (simp_all add: page_of_def limit_of_def)
    have "page_slice params ?c = take (nat 10) (drop (nat ((3 - 1) * 10)) ?c)"
      using pl len by (intro page_slice_whole) simp_all
    then have "length (page_slice params ?c) = 5" using n by simp
    moreover have "ceil_div 25 (Fin 10) = Fin 3" by (simp add: ceil_div_numeral)
    then have "totalPages ?m = Fin 3" "\<not> hasNextPage ?m" "hasPreviousPage ?m"
      using a n by (simp_all add: make_meta_def Let_def limit_of_def page_of_def)
    ultimately show "length (page_slice params ?c) = 5 \<and> totalPages ?m = Fin 3 \<and>
        \<not> hasNextPage ?m \<and> hasPreviousPage ?m" by simp
  qed
  show ?thesis
    apply (rule exI[of _ ?m])
    apply (rule exI[of _ "page_slice params ?c"])
    using 1 2 3 4 5 6 7 by (simp only: search_meta search_data simp_thms)
qed

theorem pagination_meta_correct_witness:
  "length [order ''a'' ''Alice'', order ''b'' ''bob'', order ''c'' ''Alicia''] < 2 ^ 32 \<and>
   (\<exists>m xs. meta (search tn0 [order ''a'' ''Alice'', order ''b'' ''bob'', order ''c'' ''Alicia'']
               (no_params\<lparr>limit := Some (Fin 2), page := Some (Fin 5)\<rparr>)) = Some m \<and>
      data (search tn0 [order ''a'' ''Alice'', order ''b'' ''bob'', order ''c'' ''Alicia'']
               (no_params\<lparr>limit := Some (Fin 2), page := Some (Fin 5)\<rparr>)) = Some xs \<and>
      limit_of (no_params\<lparr>limit := Some (Fin 2), page := Some (Fin 5)\<rparr>) = Fin 2 \<and>
      whole (Fin 2) \<and> (2::rat) \<noteq> 0 \<and>
      totalPages m = Fin (of_int \<lceil>(of_nat (totalItems m) :: rat) / 2\<rceil>) \<and>
      totalPages m = Fin 2 \<and>
      whole (page_of (no_params\<lparr>limit := Some (Fin 2), page := Some (Fin 5)\<rparr>)) \<and>
      whole (limit_of (no_params\<lparr>limit := Some (Fin 2), page := Some (Fin 5)\<rparr>)) \<and>
      num_lt (Fin 0) (limit_of (no_params\<lparr>limit := Some (Fin 2), page := Some (Fin 5)\<rparr>)) \<and>
      num_lt (totalPages m) (page_of (no_params\<lparr>limit := Some (Fin 2), page := Some (Fin 5)\<rparr>)) \<and>
      xs = [] \<and> \<not> hasNextPage m) \<and>
   length (replicate 25 (order ''a'' ''Alice'')) < 2 ^ 32 \<and>
   (\<exists>m xs. meta (search tn0 (replicate 25 (order ''a'' ''Alice''))
               (no_params\<lparr>limit := Some (Fin 10), page := Some (Fin 3)\<rparr>)) = Some m \<and>
      data (search tn0 (replicate 25 (order ''a'' ''Alice''))
               (no_params\<lparr>limit := Some (Fin 10), page := Some (Fin 3)\<rparr>)) = Some xs \<and>
      totalItems m = 25 \<and> length xs = 5 \<and> totalPages m = Fin 3 \<and> \<not> hasNextPage m \<and>
      hasPreviousPage m)"
proof -
  let ?d = "[order ''a'' ''Alice'', order ''b'' ''bob'', order ''c'' ''Alicia'']"
  let ?e = "replicate 25 (order ''a'' ''Alice'')"
  let ?p = "no_params\<lparr>limit := Some (Fin 2), page := Some (Fin 5)\<rparr>"
  let ?q = "no_params\<lparr>limit := Some (Fin 10), page := Some (Fin 3)\<rparr>"
  have ld: "length ?d < 2 ^ 32" and le: "length ?e < 2 ^ 32" by simp_all
  have a: "length (filters_stage tn0 ?p (query_stage ?p ?d)) = 3" "limit_of ?p = Fin 2"
    "page_of ?p = Fin 5"
    by (simp_all add: filters_stage_def query_stage_def no_params_def limit_of_def page_of_def)
  have b: "length (filters_stage tn0 ?q (query_stage ?q ?e)) = 25" "limit ?q = Some (Fin 10)"
    "page ?q = Some (Fin 3)"
    by (simp_all add: filters_stage_def query_stage_def no_params_def)
  have w: "whole (Fin 2)" "whole (Fin 5)" "num_lt (Fin 0) (Fin 2)" by simp_all
  obtain m xs where m: "meta (search tn0 ?d ?p) = Some m" "data (search tn0 ?d ?p) = Some xs"
    "totalItems m = 3"
    "\<forall>a. Fin 2 = Fin a \<and> whole (Fin a) \<and> a \<noteq> 0 \<longrightarrow>
        totalPages m = Fin (of_int \<lceil>(of_nat (totalItems m) :: rat) / a\<rceil>)"
    "whole (Fin 5) \<and> whole (Fin 2) \<and> num_lt (Fin 0) (Fin 2) \<and> num_lt (totalPages m) (Fin 5) \<longrightarrow>
       xs = [] \<and> \<not> hasNextPage m"
    using pagination_meta_correct[OF ld, of tn0 ?p] unfolding a by blast
  from m(4) w(1) have tc: "totalPages m = Fin (of_int \<lceil>(of_nat (totalItems m) :: rat) / 2\<rceil>)"
    by simp
  then have tp: "totalPages m = Fin 2" using m(3) by simp
  then have lt: "num_lt (totalPages m) (Fin 5)" by simp
  with m(5) w have e: "xs = []" "\<not> hasNextPage m" by simp_all
  obtain m' xs' where m': "meta (search tn0 ?e ?q) = Some m'" "data (search tn0 ?e ?q) = Some xs'"
    "totalItems m' = 25"
    "totalItems m' = 25 \<and> Some (Fin 10) = Some (Fin 10) \<and> Some (Fin 3) = Some (Fin 3) \<longrightarrow>
       length xs' = 5 \<and> totalPages m' = Fin 3 \<and> \<not> hasNextPage m' \<and> hasPreviousPage m'"
    using pagination_meta_correct[OF le, of tn0 ?q] unfolding b by blast
  from m'(3,4) have f: "length xs' = 5" "totalPages m' = Fin 3" "\<not> hasNextPage m'"
    "hasPreviousPage m'" by simp_all
  show ?thesis
    unfolding a using ld le m(1,2) tc tp lt w e m'(1,2,3) f by simp
qed

text \<open>
  The claim fails for the other out-of-range pages and for the other limits.
  Page 0 of a collection of one entity has \<^verbatim>\<open>hasNextPage\<close> true, and page -1 with
  limit 1 of a collection of two entities is not empty (the slice from -2 to -1
  counts from the end of the array). Page 3.25 of 25 entities with limit 10 lies
  above the 3 pages and holds 3 entities (the slice from 22.5 to 32.5). For the
  limit 1.2 and 12 entities \<^verbatim>\<open>totalPages\<close> is 10, where the ceiling of the quotient
  is 11; for the limit 1.4 and 63 entities \<^verbatim>\<open>totalPages\<close> is 45 and page 46 holds the
  last entity (\<^verbatim>\<open>45 * 1.4\<close> is 62.99999999999999). For the limit -2 and 3 entities
  \<^verbatim>\<open>totalPages\<close> is -1 and page 1 holds the first entity (the slice from 0 to -2);
  for the limit 0 \<^verbatim>\<open>totalPages\<close> is \<^verbatim>\<open>Infinity\<close>.
\<close>

theorem page_out_of_range_counterexample:
  "map_option hasNextPage
     (meta (search tn0 [order ''a'' ''Alice''] (no_params\<lparr>limit := Some (Fin 10), page := Some (Fin 0)\<rparr>)))
     = Some True \<and>
   map_option totalPages
     (meta (search tn0 [order ''a'' ''Alice''] (no_params\<lparr>limit := Some (Fin 10), page := Some (Fin 0)\<rparr>)))
     = Some (Fin 1) \<and>
   data (search tn0 [order ''a'' ''Alice'', order ''b'' ''bob'']
          (no_params\<lparr>limit := Some (Fin 1), page := Some (Fin (- 1))\<rparr>))
     = Some [order ''a'' ''Alice''] \<and>
   map_option totalPages
     (meta (search tn0 (replicate 25 (order ''a'' ''Alice''))
          (no_params\<lparr>limit := Some (Fin 10), page := Some (Fin (13 / 4))\<rparr>)))
     = Some (Fin 3) \<and>
   is_double (Fin (13 / 4)) \<and> num_lt (Fin 3) (Fin (13 / 4)) \<and>
   map_option length
     (data (search tn0 (replicate 25 (order ''a'' ''Alice''))
          (no_params\<lparr>limit := Some (Fin 10), page := Some (Fin (13 / 4))\<rparr>)))
     = Some 3 \<and>
   map_option totalPages (meta (search tn0 twelve_orders (no_params\<lparr>limit := Some double_1_2\<rparr>)))
     = Some (Fin 10) \<and>
   double_1_2 = Fin (5404319552844595 / 4503599627370496) \<and>
   \<lceil>(12::rat) / (5404319552844595 / 4503599627370496)\<rceil> = 11 \<and>
   map_option totalPages
     (meta (search tn0 (replicate 63 (order ''a'' ''Alice''))
          (no_params\<lparr>limit := Some double_1_4, page := Some (Fin 46)\<rparr>)))
     = Some (Fin 45) \<and>
   is_double double_1_4 \<and> num_lt (Fin 1) double_1_4 \<and>
   data (search tn0 (replicate 63 (order ''a'' ''Alice''))
          (no_params\<lparr>limit := Some double_1_4, page := Some (Fin 46)\<rparr>))
     = Some [order ''a'' ''Alice''] \<and>
   map_option totalPages
     (meta (search tn0 [order ''a'' ''Alice'', order ''b'' ''bob'', order ''c'' ''Alicia'']
          (no_params\<lparr>limit := Some (Fin (- 2)), page := Some (Fin 1)\<rparr>)))
     = Some (Fin (- 1)) \<and>
   data (search tn0 [order ''a'' ''Alice'', order ''b'' ''bob'', order ''c'' ''Alicia'']
          (no_params\<lparr>limit := Some (Fin (- 2)), page := Some (Fin 1)\<rparr>))
     = Some [order ''a'' ''Alice''] \<and>
   map_option totalPages
     (meta (search tn0 [order ''a'' ''Alice''] (no_params\<lparr>limit := Some (Fin 0)\<rparr>)))
     = Some PosInf"
proof -
  let ?p = "\<lambda>l p. no_params\<lparr>limit := Some l, page := Some p\<rparr>"
  have n: "query (?p l p) = None" "filters (?p l p) = None" "sortBy (?p l p) = None"
    "limit_of (?p l p) = l" "page_of (?p l p) = p" for l p
    by (simp_all add: no_params_def limit_of_def page_of_def)
  note s = search_no_stage[OF n(1,2,3)]
  have 1: "map_option hasNextPage (meta (search tn0 [order ''a'' ''Alice''] (?p (Fin 10) (Fin 0))))
     = Some True"
    "map_option totalPages (meta (search tn0 [order ''a'' ''Alice''] (?p (Fin 10) (Fin 0))))
     = Some (Fin 1)"
    by (simp_all add: s make_meta_def Let_def n ceil_div_numeral)
  have 2: "data (search tn0 [order ''a'' ''Alice'', order ''b'' ''bob''] (?p (Fin 1) (Fin (- 1))))
     = Some [order ''a'' ''Alice'']"
    by (simp add: s page_slice_def Let_def n js_sub_def js_slice_def slice_index.simps
        to_integer_def)
  have 3: "map_option totalPages
     (meta (search tn0 (replicate 25 (order ''a'' ''Alice'')) (?p (Fin 10) (Fin (13 / 4)))))
     = Some (Fin 3)"
    by (simp add: s make_meta_def Let_def n ceil_div_numeral)
  have a4: "to_double (13 / 4 - 1) = Fin (9 / 4)"
    using to_double_value[of 1 "13 / 4 - 1" 5066549580791808] by simp
  have b4: "to_double (9 / 4 * 10) = Fin (45 / 2)"
    using to_double_value[of 4 "9 / 4 * 10" 6333186975989760] by simp
  have c4: "to_double (45 / 2 + 10) = Fin (65 / 2)"
    using to_double_value[of 5 "45 / 2 + 10" 4573968371548160] by simp
  have "page_slice (?p (Fin 10) (Fin (13 / 4))) xs = js_slice xs (Fin (45 / 2)) (Fin (65 / 2))" for xs :: "entity list"
    by (rule page_slice_from_doubles[OF n(5) n(4) a4 b4 c4])
  also have "js_slice xs (Fin (45 / 2)) (Fin (65 / 2))
      = take (nat \<lfloor>65 / 2 :: rat\<rfloor> - nat \<lfloor>45 / 2 :: rat\<rfloor>) (drop (nat \<lfloor>45 / 2 :: rat\<rfloor>) xs)"
    for xs :: "entity list"
    by (rule js_slice_nonneg) simp_all
  finally have 4: "map_option length
     (data (search tn0 (replicate 25 (order ''a'' ''Alice'')) (?p (Fin 10) (Fin (13 / 4)))))
     = Some 3"
    by (simp add: s)
  have 5: "map_option totalPages (meta (search tn0 twelve_orders (no_params\<lparr>limit := Some double_1_2\<rparr>)))
     = Some (Fin 10)"
  proof -
    have "length twelve_orders = 12" by (simp add: twelve_orders_def)
    then show ?thesis
      by (simp add: search_no_stage make_meta_def Let_def ceil_div_12_limit_1_2)
  qed
  have 6: "\<lceil>(12::rat) / (5404319552844595 / 4503599627370496)\<rceil> = 11"
    by simp
  have 7: "map_option totalPages
     (meta (search tn0 (replicate 63 (order ''a'' ''Alice'')) (?p double_1_4 (Fin 46))))
     = Some (Fin 45)"
    by (simp add: s make_meta_def Let_def n ceil_div_63_limit_1_4)
  have 8: "data (search tn0 (replicate 63 (order ''a'' ''Alice'')) (?p double_1_4 (Fin 46)))
     = Some [order ''a'' ''Alice'']"
    by (simp add: s limit_1_4_page_46[OF n(5,4)])
  have 9: "map_option totalPages
     (meta (search tn0 [order ''a'' ''Alice'', order ''b'' ''bob'', order ''c'' ''Alicia'']
          (?p (Fin (- 2)) (Fin 1))))
     = Some (Fin (- 1))"
    by (simp add: s make_meta_def Let_def n ceil_div_numeral)
  have 10: "data (search tn0 [order ''a'' ''Alice'', order ''b'' ''bob'', order ''c'' ''Alicia'']
          (?p (Fin (- 2)) (Fin 1)))
     = Some [order ''a'' ''Alice'']"
    by (simp add: s page_slice_def Let_def n js_sub_def js_slice_def slice_index.simps
        to_integer_def)
  have 11: "map_option totalPages
     (meta (search tn0 [order ''a'' ''Alice''] (no_params\<lparr>limit := Some (Fin 0)\<rparr>)))
     = Some PosInf"
    by (simp add: search_no_stage make_meta_def Let_def ceil_div_def)
  have 12: "num_lt (Fin 3) (Fin (13 / 4))" "num_lt (Fin 1) double_1_4"
    "double_1_2 = Fin (5404319552844595 / 4503599627370496)"
    by (simp_all add: double_1_4_def double_1_2_def)
  from 1 2 3 4 5 6 7 8 9 10 11 12 example_doubles(2,3) show ?thesis by simp
qed

subsection \<open>Filter predicates\<close>

text \<open>
  The string methods are the prefix, suffix and contiguous-sublist relations of
  the list library.
\<close>

lemma startsWith_prefix: "startsWith s q = prefix q s"
  by (induction s q rule: startsWith.induct) auto

lemma endsWith_suffix: "endsWith s q = suffix q s"
  by (simp add: endsWith_def startsWith_prefix suffix_to_prefix)

lemma js_includes_sublist: "js_includes s q = sublist q s"
  by (induction s) (auto simp: startsWith_prefix sublist_Cons_right)

lemma strict_eq_typeof: "strict_eq a b \<Longrightarrow> typeof a = typeof b"
  by (induction a b rule: strict_eq.induct) auto

lemma applyFilter_strings:
  assumes "get_prop item (field f) = VStr iv" "fvalue f = VStr fv"
  shows "operator f = CONTAINS \<Longrightarrow> applyFilter tn item f = sublist (toLowerCase fv) (toLowerCase iv)"
    and "operator f = STARTS_WITH \<Longrightarrow> applyFilter tn item f = prefix (toLowerCase fv) (toLowerCase iv)"
    and "operator f = ENDS_WITH \<Longrightarrow> applyFilter tn item f = suffix (toLowerCase fv) (toLowerCase iv)"
  using assms
  by (simp_all add: applyFilter_def Let_def FilterOperator_defs js_includes_sublist
      startsWith_prefix endsWith_suffix)

lemma applyFilter_non_string:
  assumes "\<not> is_string (get_prop item (field f)) \<or> \<not> is_string (fvalue f)"
    and "operator f \<in> {CONTAINS, STARTS_WITH, ENDS_WITH}"
  shows "\<not> applyFilter tn item f"
proof -
  have "(case (get_prop item (field f), fvalue f) of (VStr iv, VStr fv) \<Rightarrow> P iv fv | _ \<Rightarrow> False) = False"
    for P
    using assms(1) by (cases "get_prop item (field f)"; cases "fvalue f") auto
  then show ?thesis using assms(2)
    by (auto simp: applyFilter_def Let_def FilterOperator_defs)
qed

lemma applyFilter_equals:
  "operator f = EQUALS \<Longrightarrow> applyFilter tn item f = strict_eq (get_prop item (field f)) (fvalue f)"
  by (simp add: applyFilter_def Let_def)

lemma applyFilter_unknown:
  "operator f \<notin> {EQUALS, CONTAINS, STARTS_WITH, ENDS_WITH, GREATER_THAN, LESS_THAN} \<Longrightarrow>
   \<not> applyFilter tn item f"
  by (simp add: applyFilter_def Let_def)

text \<open>
  C3. When the entity's value and the filter's value are both strings,
  \<^verbatim>\<open>CONTAINS\<close>, \<^verbatim>\<open>STARTS_WITH\<close> and \<^verbatim>\<open>ENDS_WITH\<close> hold exactly when the lowered
  filter value is a substring, a prefix, a suffix of the lowered entity value;
  when either is not a string they are false. \<^verbatim>\<open>EQUALS\<close> is \<^verbatim>\<open>===\<close>, which holds
  only between values of the same type. An operator outside the six of the
  enumeration gives false.
\<close>

theorem structured_filter_operators:
 "(get_prop item (field f) = VStr iv \<and> fvalue f = VStr fv \<longrightarrow>
     (operator f = CONTAINS \<longrightarrow> applyFilter tn item f = sublist (toLowerCase fv) (toLowerCase iv)) \<and>
     (operator f = STARTS_WITH \<longrightarrow> applyFilter tn item f = prefix (toLowerCase fv) (toLowerCase iv)) \<and>
     (operator f = ENDS_WITH \<longrightarrow> applyFilter tn item f = suffix (toLowerCase fv) (toLowerCase iv))) \<and>
  ((\<not> is_string (get_prop item (field f)) \<or> \<not> is_string (fvalue f)) \<and>
     operator f \<in> {CONTAINS, STARTS_WITH, ENDS_WITH} \<longrightarrow> \<not> applyFilter tn item f) \<and>
  (operator f = EQUALS \<longrightarrow>
     applyFilter tn item f = strict_eq (get_prop item (field f)) (fvalue f) \<and>
     (applyFilter tn item f \<longrightarrow> typeof (get_prop item (field f)) = typeof (fvalue f))) \<and>
  (operator f \<notin> {EQUALS, CONTAINS, STARTS_WITH, ENDS_WITH, GREATER_THAN, LESS_THAN} \<longrightarrow>
     \<not> applyFilter tn item f)"
  using applyFilter_strings[of item f iv fv tn] applyFilter_non_string[of item f tn]
    applyFilter_equals[of f tn item] applyFilter_unknown[of f tn item]
    strict_eq_typeof[of "get_prop item (field f)" "fvalue f"]
  by blast

lemma get_prop_order_buyer: "get_prop (order i b) ''buyerName'' = VStr b"
  by (simp add: get_prop_def own_props_def order_def mk_entity_def)

lemma get_prop_order_missing: "get_prop (order i b) ''ipAddress'' = VUndefined"
  by (simp add: get_prop_def own_props_def order_def mk_entity_def Object_prototype_def)

lemma lower_Alice: "toLowerCase ''Alice'' = ''alice''" "toLowerCase ''ali'' = ''ali''"
  "toLowerCase ''ICE'' = ''ice''" "toLowerCase ''AL'' = ''al''"
  by (simp_all add: toLowerCase_def lower_char_def)

theorem structured_filter_operators_witness:
  "applyFilter tn0 (order ''1'' ''Alice'') \<lparr>field = ''buyerName'', fvalue = VStr ''ali'', operator = CONTAINS\<rparr> \<and>
   sublist ''ali'' ''alice'' \<and>
   applyFilter tn0 (order ''1'' ''Alice'') \<lparr>field = ''buyerName'', fvalue = VStr ''AL'', operator = STARTS_WITH\<rparr> \<and>
   applyFilter tn0 (order ''1'' ''Alice'') \<lparr>field = ''buyerName'', fvalue = VStr ''ICE'', operator = ENDS_WITH\<rparr> \<and>
   \<not> applyFilter tn0 (order ''1'' ''Alice'') \<lparr>field = ''buyerName'', fvalue = VNum (Fin 1), operator = CONTAINS\<rparr> \<and>
   \<not> applyFilter tn0 (order ''1'' ''Alice'') \<lparr>field = ''buyerName'', fvalue = VStr ''alice'', operator = EQUALS\<rparr> \<and>
   applyFilter tn0 (order ''1'' ''Alice'') \<lparr>field = ''buyerName'', fvalue = VStr ''Alice'', operator = EQUALS\<rparr> \<and>
   \<not> applyFilter tn0 (order ''1'' ''Alice'') \<lparr>field = ''buyerName'', fvalue = VStr ''Alice'', operator = ''LIKE''\<rparr>"
proof -
  let ?o = "order ''1'' ''Alice''"
  have s1: "sublist ''ali'' ''alice''" by (simp add: js_includes_sublist[symmetric])
  have s2: "prefix ''al'' ''alice''" by simp
  have s3: "suffix ''ice'' ''alice''" by (simp add: suffix_to_prefix)
  have 1: "applyFilter tn0 ?o \<lparr>field = ''buyerName'', fvalue = VStr ''ali'', operator = CONTAINS\<rparr>"
    using structured_filter_operators[of ?o "\<lparr>field = ''buyerName'', fvalue = VStr ''ali'', operator = CONTAINS\<rparr>" "''Alice''" "''ali''" tn0] s1
    by (simp add: get_prop_order_buyer lower_Alice)
  have 2: "applyFilter tn0 ?o \<lparr>field = ''buyerName'', fvalue = VStr ''AL'', operator = STARTS_WITH\<rparr>"
    using structured_filter_operators[of ?o "\<lparr>field = ''buyerName'', fvalue = VStr ''AL'', operator = STARTS_WITH\<rparr>" "''Alice''" "''AL''" tn0] s2
    by (simp add: get_prop_order_buyer lower_Alice)
  have 3: "applyFilter tn0 ?o \<lparr>field = ''buyerName'', fvalue = VStr ''ICE'', operator = ENDS_WITH\<rparr>"
    using structured_filter_operators[of ?o "\<lparr>field = ''buyerName'', fvalue = VStr ''ICE'', operator = ENDS_WITH\<rparr>" "''Alice''" "''ICE''" tn0] s3
    by (simp add: get_prop_order_buyer lower_Alice)
  have 4: "\<not> applyFilter tn0 ?o \<lparr>field = ''buyerName'', fvalue = VNum (Fin 1), operator = CONTAINS\<rparr>"
    using structured_filter_operators[of ?o "\<lparr>field = ''buyerName'', fvalue = VNum (Fin 1), operator = CONTAINS\<rparr>" "''Alice''" "''x''" tn0]
    by simp
  have 5: "\<not> applyFilter tn0 ?o \<lparr>field = ''buyerName'', fvalue = VStr ''alice'', operator = EQUALS\<rparr>"
    using structured_filter_operators[of ?o "\<lparr>field = ''buyerName'', fvalue = VStr ''alice'', operator = EQUALS\<rparr>" "''Alice''" "''alice''" tn0]
    by (simp add: get_prop_order_buyer)
  have 6: "applyFilter tn0 ?o \<lparr>field = ''buyerName'', fvalue = VStr ''Alice'', operator = EQUALS\<rparr>"
    using structured_filter_operators[of ?o "\<lparr>field = ''buyerName'', fvalue = VStr ''Alice'', operator = EQUALS\<rparr>" "''Alice''" "''Alice''" tn0]
    by (simp add: get_prop_order_buyer)
  have 7: "\<not> applyFilter tn0 ?o \<lparr>field = ''buyerName'', fvalue = VStr ''Alice'', operator = ''LIKE''\<rparr>"
    using structured_filter_operators[of ?o "\<lparr>field = ''buyerName'', fvalue = VStr ''Alice'', operator = ''LIKE''\<rparr>" "''Alice''" "''Alice''" tn0]
    by (simp add: FilterOperator_defs)
  show ?thesis using 1 2 3 4 5 6 7 s1 by simp
qed

subsection \<open>The free-text filter\<close>

lemma object_values_iff:
  "v \<in> set (object_values item) \<longleftrightarrow> (\<exists>k. map_of (own_props item) k = Some v)"
proof
  assume "v \<in> set (object_values item)"
  then obtain k where k: "k \<in> fst ` set (own_props item)"
    and v: "v = (case map_of (own_props item) k of None \<Rightarrow> VUndefined | Some w \<Rightarrow> w)"
    by (auto simp: object_values_def)
  from k obtain w where "map_of (own_props item) k = Some w"
    by (metis map_of_eq_None_iff not_Some_eq)
  with v show "\<exists>k. map_of (own_props item) k = Some v" by auto
next
  assume "\<exists>k. map_of (own_props item) k = Some v"
  then obtain k where k: "map_of (own_props item) k = Some v" by blast
  then have "k \<in> fst ` set (own_props item)" by (metis map_of_eq_None_iff option.distinct(1))
  moreover have "(case map_of (own_props item) k of None \<Rightarrow> VUndefined | Some w \<Rightarrow> w) = v"
    using k by simp
  ultimately show "v \<in> set (object_values item)" by (force simp: object_values_def)
qed

lemma matches_query_iff:
  "matches_query q item \<longleftrightarrow> (\<exists>s. VStr s \<in> set (object_values item) \<and> sublist q (toLowerCase s))"
proof -
  have "(case v of VStr s \<Rightarrow> js_includes (toLowerCase s) q | _ \<Rightarrow> False)
        = (\<exists>s. v = VStr s \<and> sublist q (toLowerCase s))" for v
    by (cases v) (simp_all add: js_includes_sublist)
  then show ?thesis by (auto simp: matches_query_def list_ex_iff)
qed

lemma matches_query_ext:
  "(\<lambda>item. \<exists>s. VStr s \<in> set (object_values item) \<and> sublist q (toLowerCase s))
   = matches_query q"
  by (rule ext) (simp add: matches_query_iff)

lemma id_in_object_values: "VStr (entity_id item) \<in> set (object_values item)"
  unfolding object_values_iff by (rule exI[of _ "''id''"]) (simp add: own_props_def)

text \<open>
  C4. With a query given, the free-text stage keeps exactly the entities that
  have a string among their own attribute values whose lowering contains the
  lowered query; a value that is not a string never makes an entity match. (For
  the empty query the stage keeps every entity, and every entity has such a
  string, its identifier.) The candidates of the call are among the entities the
  stage keeps, and are exactly those when no structured filters are given.
\<close>

theorem free_text_query_keeps:
  assumes "query params = Some q"
  shows "query_stage params d =
           filter (\<lambda>item. \<exists>s. VStr s \<in> set (object_values item) \<and>
                     sublist (toLowerCase q) (toLowerCase s)) d \<and>
         (\<forall>item v. v \<in> set (object_values item) \<longleftrightarrow> (\<exists>k. map_of (own_props item) k = Some v)) \<and>
         set (candidates tn d params) \<subseteq> set (query_stage params d) \<and>
         (filters params = None \<longrightarrow>
            set (candidates tn d params) = set (query_stage params d))"
proof -
  have 1: "query_stage params d =
           filter (\<lambda>item. \<exists>s. VStr s \<in> set (object_values item) \<and>
                     sublist (toLowerCase q) (toLowerCase s)) d"
  proof (cases "q = []")
    case True
    have "\<exists>s. VStr s \<in> set (object_values item) \<and> sublist (toLowerCase q) (toLowerCase s)" for item
      using id_in_object_values[of item] True by (auto simp: toLowerCase_def)
    then show ?thesis using assms True by (simp add: query_stage_def)
  next
    case False
    show ?thesis using assms False by (simp add: query_stage_def matches_query_ext)
  qed
  have 2: "set (sort_stage tn params xs) = set xs" for xs
    using mset_sort_stage[of tn params xs] by (metis set_mset_mset)
  have 3: "set (filters_stage tn params xs) \<subseteq> set xs" for xs
    by (auto simp: filters_stage_def split: option.splits)
  have 4: "filters params = None \<Longrightarrow> filters_stage tn params xs = xs" for xs
    by (simp add: filters_stage_def)
  have 5: "set (candidates tn d params) \<subseteq> set (query_stage params d)"
    unfolding candidates_def 2 by (rule 3)
  have 6: "filters params = None \<longrightarrow>
            set (candidates tn d params) = set (query_stage params d)"
    unfolding candidates_def 2 by (simp add: 4)
  have 7: "\<forall>item v. v \<in> set (object_values item) \<longleftrightarrow>
            (\<exists>k. map_of (own_props item) k = Some v)"
    by (simp add: object_values_iff)
  from 1 5 6 7 show ?thesis by blast
qed

lemma object_values_order:
  "object_values (order i b) =
     [VStr i, VDate (Date 0 (Fin 1700000000000)), VDate (Date 1 (Fin 1700000000000)),
      VStr b, VStr ''PENDING'']"
  by (simp add: object_values_def get_prop_def own_props_def order_def mk_entity_def)

theorem free_text_query_keeps_witness:
  "query (no_params\<lparr>query := Some ''ALI''\<rparr>) = Some ''ALI'' \<and>
   query_stage (no_params\<lparr>query := Some ''ALI''\<rparr>)
     [order ''1'' ''Alice'', order ''2'' ''bob'', order ''3'' ''Alicia'']
   = [order ''1'' ''Alice'', order ''3'' ''Alicia''] \<and>
   set (candidates tn0 [order ''1'' ''Alice'', order ''2'' ''bob'', order ''3'' ''Alicia'']
         (no_params\<lparr>query := Some ''ALI''\<rparr>))
   = {order ''1'' ''Alice'', order ''3'' ''Alicia''}"
proof -
  let ?p = "no_params\<lparr>query := Some ''ALI''\<rparr>"
  let ?d = "[order ''1'' ''Alice'', order ''2'' ''bob'', order ''3'' ''Alicia'']"
  have h: "query ?p = Some ''ALI''" "filters ?p = None" by (simp_all add: no_params_def)
  have l: "toLowerCase ''ALI'' = ''ali''" "toLowerCase ''Alice'' = ''alice''"
    "toLowerCase ''bob'' = ''bob''" "toLowerCase ''Alicia'' = ''alicia''"
    "toLowerCase ''PENDING'' = ''pending''" "toLowerCase ''1'' = ''1''"
    "toLowerCase ''2'' = ''2''" "toLowerCase ''3'' = ''3''"
    by (simp_all add: toLowerCase_def lower_char_def)
  have f: "filter (\<lambda>item. \<exists>s. VStr s \<in> set (object_values item) \<and>
                     sublist (toLowerCase ''ALI'') (toLowerCase s)) ?d
           = [order ''1'' ''Alice'', order ''3'' ''Alicia'']"
    unfolding matches_query_ext by (simp add: matches_query_def object_values_order l)
  note r = free_text_query_keeps[OF h(1), of ?d tn0, unfolded f]
  from r have q: "query_stage ?p ?d = [order ''1'' ''Alice'', order ''3'' ''Alicia'']"
    by (rule conjunct1)
  from r h(2) have "set (candidates tn0 ?d ?p) = set (query_stage ?p ?d)" by blast
  with q h(1) show ?thesis by simp
qed

subsection \<open>A filter on an attribute the entity does not have\<close>

lemma get_prop_absent:
  assumes "\<not> has_prop item fld"
  shows "get_prop item fld = VUndefined"
proof -
  have "fld \<notin> fst ` set (own_props item @ inherited item)"
    using assms unfolding has_prop_def set_map .
  then have "map_of (own_props item @ inherited item) fld = None"
    using map_of_eq_None_iff[of "own_props item @ inherited item" fld] by blast
  then show ?thesis by (simp only: get_prop_def option.case)
qed

lemma num_lt_NaN [simp]: "\<not> num_lt NaN y" "\<not> num_lt x NaN"
  by (cases y; simp) (cases x; simp)

lemma js_lt_undefined [simp]: "\<not> js_lt tn VUndefined v" "\<not> js_lt tn v VUndefined"
proof -
  show "\<not> js_lt tn VUndefined v"
    by (simp add: js_lt_def split: jsval.splits)
  show "\<not> js_lt tn v VUndefined"
    by (cases "to_primitive v") (simp_all add: js_lt_def)
qed

lemma strict_eq_undefined: "strict_eq VUndefined v = (v = VUndefined)"
  by (cases v) simp_all

text \<open>
  C6, as amended. A predicate on an attribute that the entity neither has nor
  inherits reads \<^verbatim>\<open>undefined\<close>; it raises no error and does not match, except for
  the operator \<^verbatim>\<open>EQUALS\<close> with the filter value \<^verbatim>\<open>undefined\<close>, which matches.
\<close>

theorem absent_attribute_filter:
  assumes "\<not> has_prop item (field f)"
  shows "applyFilter tn item f = (operator f = EQUALS \<and> fvalue f = VUndefined)"
  using get_prop_absent[OF assms]
  by (auto simp: applyFilter_def Let_def js_gt_def strict_eq_undefined FilterOperator_defs)

theorem absent_attribute_filter_witness:
  "\<not> has_prop (login_record ''r1'' None) ''ipAddress'' \<and>
   \<not> applyFilter tn0 (login_record ''r1'' None)
       \<lparr>field = ''ipAddress'', fvalue = VStr ''10.0.0.1'', operator = EQUALS\<rparr> \<and>
   \<not> applyFilter tn0 (login_record ''r1'' None)
       \<lparr>field = ''ipAddress'', fvalue = VStr ''10'', operator = LESS_THAN\<rparr>"
proof -
  have h: "\<not> has_prop (login_record ''r1'' None) ''ipAddress''"
    by (simp add: has_prop_def own_props_def login_record_def mk_entity_def
        Object_prototype_def)
  show ?thesis
    using h
      absent_attribute_filter[of "login_record ''r1'' None"
        "\<lparr>field = ''ipAddress'', fvalue = VStr ''10.0.0.1'', operator = EQUALS\<rparr>" tn0]
      absent_attribute_filter[of "login_record ''r1'' None"
        "\<lparr>field = ''ipAddress'', fvalue = VStr ''10'', operator = LESS_THAN\<rparr>" tn0]
    by (simp add: FilterOperator_defs)
qed

text \<open>
  A login record without an origin address matches the filter
  \<^verbatim>\<open>{field: 'ipAddress', operator: EQUALS, value: undefined}\<close>. An order, which
  has no attribute \<^verbatim>\<open>toString\<close> of its own and inherits the method, matches the
  filter \<^verbatim>\<open>{field: 'toString', operator: GREATER_THAN, value: 'a'}\<close>: the method is
  compared as its text, which begins with \<^verbatim>\<open>f\<close>.
\<close>

theorem absent_attribute_equals_undefined_counterexample:
  "\<not> has_prop (login_record ''r1'' None) ''ipAddress'' \<and>
   applyFilter tn0 (login_record ''r1'' None)
     \<lparr>field = ''ipAddress'', fvalue = VUndefined, operator = EQUALS\<rparr> \<and>
   ''toString'' \<notin> set (map fst (own_props (order ''o1'' ''Alice''))) \<and>
   applyFilter tn0 (order ''o1'' ''Alice'')
     \<lparr>field = ''toString'', fvalue = VStr ''a'', operator = GREATER_THAN\<rparr>"
  by (simp add: has_prop_def own_props_def login_record_def order_def mk_entity_def
      applyFilter_def get_prop_def Object_prototype_def js_gt_def js_lt_def
      FilterOperator_defs)

subsection \<open>Sorting\<close>

lemma set_insert_by: "set (insert_by cmp x ys) = insert x (set ys)"
  using mset_insert_by[of cmp x ys] by (metis set_mset_add_mset_insert set_mset_mset)

lemma set_js_sort: "set (js_sort cmp xs) = set xs"
  using mset_js_sort[of cmp xs] by (metis set_mset_mset)

lemma js_sort_Cons: "js_sort cmp (x # xs) = insert_by cmp x (js_sort cmp xs)"
  by (simp add: js_sort_def)

lemma sorted_insert_by:
  assumes total: "\<And>a b. a \<in> S \<Longrightarrow> b \<in> S \<Longrightarrow> cmp a b \<le> 0 \<or> cmp b a \<le> 0"
    and trans: "\<And>a b c. a \<in> S \<Longrightarrow> b \<in> S \<Longrightarrow> c \<in> S \<Longrightarrow>
                  cmp a b \<le> 0 \<Longrightarrow> cmp b c \<le> 0 \<Longrightarrow> cmp a c \<le> 0"
    and "x \<in> S" "set ys \<subseteq> S" "sorted_wrt (\<lambda>a b. cmp a b \<le> 0) ys"
  shows "sorted_wrt (\<lambda>a b. cmp a b \<le> 0) (insert_by cmp x ys)"
  using assms(3-)
proof (induction ys)
  case Nil
  show ?case by simp
next
  case (Cons y ys)
  show ?case
  proof (cases "cmp x y \<le> 0")
    case True
    have "cmp x z \<le> 0" if "z \<in> set ys" for z
    proof -
      have "cmp y z \<le> 0" using Cons.prems(3) that by simp
      with True show ?thesis using trans[of x y z] Cons.prems(1,2) that by auto
    qed
    with True Cons.prems(3) show ?thesis by simp
  next
    case False
    then have yx: "cmp y x \<le> 0" using total[of x y] Cons.prems(1,2) by auto
    have "sorted_wrt (\<lambda>a b. cmp a b \<le> 0) (insert_by cmp x ys)"
      using Cons.IH Cons.prems by simp
    with False yx Cons.prems(3) show ?thesis by (auto simp: set_insert_by)
  qed
qed

lemma sorted_js_sort:
  assumes total: "\<And>a b. a \<in> S \<Longrightarrow> b \<in> S \<Longrightarrow> cmp a b \<le> 0 \<or> cmp b a \<le> 0"
    and trans: "\<And>a b c. a \<in> S \<Longrightarrow> b \<in> S \<Longrightarrow> c \<in> S \<Longrightarrow>
                  cmp a b \<le> 0 \<Longrightarrow> cmp b c \<le> 0 \<Longrightarrow> cmp a c \<le> 0"
    and "set xs \<subseteq> S"
  shows "sorted_wrt (\<lambda>a b. cmp a b \<le> 0) (js_sort cmp xs)"
  using assms(3)
proof (induction xs)
  case Nil
  show ?case by (simp add: js_sort_def)
next
  case (Cons x xs)
  show ?case unfolding js_sort_Cons
  proof (rule sorted_insert_by[where S = S])
    show "set (js_sort cmp xs) \<subseteq> S" using Cons.prems by (simp add: set_js_sort)
    show "sorted_wrt (\<lambda>a b. cmp a b \<le> 0) (js_sort cmp xs)" using Cons by simp
    show "x \<in> S" using Cons.prems by simp
  qed (use total trans in blast)+
qed

lemma filter_insert_by_neg: "\<not> P x \<Longrightarrow> filter P (insert_by cmp x ys) = filter P ys"
  by (induction ys) auto

lemma filter_insert_by_pos:
  assumes "P x" "\<And>y. y \<in> set ys \<Longrightarrow> P y \<Longrightarrow> cmp x y \<le> 0"
  shows "filter P (insert_by cmp x ys) = x # filter P ys"
  using assms by (induction ys) auto

lemma filter_js_sort:
  assumes "\<And>x y. x \<in> set xs \<Longrightarrow> y \<in> set xs \<Longrightarrow> P x \<Longrightarrow> P y \<Longrightarrow> cmp x y \<le> 0"
  shows "filter P (js_sort cmp xs) = filter P xs"
  using assms
proof (induction xs)
  case Nil
  show ?case by (simp add: js_sort_def)
next
  case (Cons x xs)
  have IH: "filter P (js_sort cmp xs) = filter P xs" using Cons by simp
  show ?case
  proof (cases "P x")
    case True
    have "filter P (insert_by cmp x (js_sort cmp xs)) = x # filter P (js_sort cmp xs)"
      using True Cons.prems by (intro filter_insert_by_pos) (simp_all add: set_js_sort)
    with True IH show ?thesis by (simp add: js_sort_Cons)
  next
    case False
    then show ?thesis by (simp add: js_sort_Cons filter_insert_by_neg IH)
  qed
qed

lemma str_lt_asym: "str_lt a b \<Longrightarrow> \<not> str_lt b a"
  by (induction a b rule: str_lt.induct) auto

lemma str_lt_total: "\<not> str_lt a b \<Longrightarrow> \<not> str_lt b a \<Longrightarrow> a = b"
  by (induction a b rule: str_lt.induct) (auto simp: linorder_neq_iff)

lemma str_lt_trans: "str_lt a b \<Longrightarrow> str_lt b c \<Longrightarrow> str_lt a c"
proof (induction a b arbitrary: c rule: str_lt.induct)
  case (2 y ys)
  then show ?case by (cases c) auto
next
  case (4 x xs y ys)
  then show ?case by (cases c) (auto intro: less_trans)
qed auto

lemma js_lt_asym: "js_lt tn a b \<Longrightarrow> \<not> js_lt tn b a"
  by (cases "to_primitive a"; cases "to_primitive b")
     (auto simp: js_lt_def dest: num_lt_asym str_lt_asym)

lemma compare_items_le:
  "compare_items tn sb so a b \<le> 0 \<longleftrightarrow>
     (if so = Some DESC then \<not> js_lt tn (get_prop a sb) (get_prop b sb)
      else \<not> js_lt tn (get_prop b sb) (get_prop a sb))"
  using js_lt_asym[of tn "get_prop a sb" "get_prop b sb"]
  by (auto simp: compare_items_def Let_def js_gt_def)

lemma compare_items_eq_0:
  "compare_items tn sb so a b = 0 \<longleftrightarrow>
     \<not> js_lt tn (get_prop a sb) (get_prop b sb) \<and> \<not> js_lt tn (get_prop b sb) (get_prop a sb)"
  by (auto simp: compare_items_def Let_def js_gt_def)

lemma compare_items_desc:
  "so \<noteq> Some DESC \<Longrightarrow> compare_items tn sb (Some DESC) a b = - compare_items tn sb so a b"
  using js_lt_asym[of tn "get_prop a sb" "get_prop b sb"]
  by (auto simp: compare_items_def Let_def js_gt_def)

lemma compare_items_absent:
  "get_prop a sb = VUndefined \<or> get_prop b sb = VUndefined \<Longrightarrow> compare_items tn sb so a b = 0"
  by (auto simp: compare_items_eq_0)

lemma comparable_strings:
  assumes "\<And>v. v \<in> set vs \<Longrightarrow> is_string v"
  shows "comparable tn vs"
  unfolding comparable_def
proof (intro ballI impI)
  fix a b c
  assume "a \<in> set vs" "b \<in> set vs" "c \<in> set vs"
  then obtain s t u where s: "a = VStr s" "b = VStr t" "c = VStr u"
    using assms by (metis is_string.elims(2))
  assume "\<not> js_lt tn b a \<and> \<not> js_lt tn c b"
  then have n: "\<not> str_lt t s" "\<not> str_lt u t" by (simp_all add: js_lt_def s)
  have "\<not> str_lt u s"
  proof
    assume us: "str_lt u s"
    show False
    proof (cases "str_lt s t")
      case True
      with us have "str_lt u t" by (rule str_lt_trans)
      with n show False by simp
    next
      case False
      with n have "s = t" by (intro str_lt_total)
      with us n show False by simp
    qed
  qed
  then show "\<not> js_lt tn c a" by (simp add: js_lt_def s)
qed

text \<open>
  C5, as amended. With a sort field given, and when the candidates' values of that
  field are mutually comparable: the result is a rearrangement of the filtered
  entities in which no entity's value is less than an earlier one's (ascending) or
  greater than an earlier one's (descending), and two entities that compare equal
  keep their relative order, in both directions. A comparison in which either
  value is absent gives 0 (equal) and raises nothing. Descending negates the
  outcome of each comparison.
\<close>

theorem sort_stage_sorted_and_stable:
  assumes sb: "sortBy params = Some sb" "sb \<noteq> []"
    and cmpb: "comparable tn
           (map (\<lambda>item. get_prop item sb) (filters_stage tn params (query_stage params d)))"
  shows
   "mset (candidates tn d params) = mset (filters_stage tn params (query_stage params d)) \<and>
    (sortOrder params \<noteq> Some DESC \<longrightarrow>
       sorted_wrt (\<lambda>a b. \<not> js_lt tn (get_prop b sb) (get_prop a sb)) (candidates tn d params)) \<and>
    (sortOrder params = Some DESC \<longrightarrow>
       sorted_wrt (\<lambda>a b. \<not> js_lt tn (get_prop a sb) (get_prop b sb)) (candidates tn d params)) \<and>
    (\<forall>a b. compare_items tn sb (sortOrder params) a b = 0 \<longrightarrow>
       filter (\<lambda>z. z = a \<or> z = b) (candidates tn d params)
       = filter (\<lambda>z. z = a \<or> z = b) (filters_stage tn params (query_stage params d))) \<and>
    (\<forall>a b. get_prop a sb = VUndefined \<or> get_prop b sb = VUndefined \<longrightarrow>
       compare_items tn sb (sortOrder params) a b = 0) \<and>
    (\<forall>a b. compare_items tn sb (Some DESC) a b = - compare_items tn sb (Some ASC) a b)"
proof -
  let ?xs = "filters_stage tn params (query_stage params d)"
  let ?cmp = "compare_items tn sb (sortOrder params)"
  have c: "candidates tn d params = js_sort ?cmp ?xs"
    using sb by (simp add: candidates_def sort_stage_def)
  have 1: "mset (candidates tn d params) = mset ?xs"
    by (simp add: c mset_js_sort)
  have total: "?cmp a b \<le> 0 \<or> ?cmp b a \<le> 0" for a b
    using js_lt_asym[of tn "get_prop a sb" "get_prop b sb"] by (auto simp: compare_items_le)
  have trans: "?cmp a c \<le> 0"
    if "a \<in> set ?xs" "b \<in> set ?xs" "c \<in> set ?xs" "?cmp a b \<le> 0" "?cmp b c \<le> 0" for a b c
  proof -
    have m: "get_prop a sb \<in> set (map (\<lambda>item. get_prop item sb) ?xs)"
      "get_prop b sb \<in> set (map (\<lambda>item. get_prop item sb) ?xs)"
      "get_prop c sb \<in> set (map (\<lambda>item. get_prop item sb) ?xs)"
      using that(1-3) by simp_all
    show ?thesis
    proof (cases "sortOrder params = Some DESC")
      case True
      with that(4,5) have "\<not> js_lt tn (get_prop b sb) (get_prop c sb)"
        "\<not> js_lt tn (get_prop a sb) (get_prop b sb)" by (simp_all add: compare_items_le)
      with cmpb m have "\<not> js_lt tn (get_prop a sb) (get_prop c sb)"
        unfolding comparable_def by blast
      with True show ?thesis by (simp add: compare_items_le)
    next
      case False
      with that(4,5) have "\<not> js_lt tn (get_prop b sb) (get_prop a sb)"
        "\<not> js_lt tn (get_prop c sb) (get_prop b sb)" by (simp_all add: compare_items_le)
      with cmpb m have "\<not> js_lt tn (get_prop c sb) (get_prop a sb)"
        unfolding comparable_def by blast
      with False show ?thesis by (simp add: compare_items_le)
    qed
  qed
  have s: "sorted_wrt (\<lambda>a b. ?cmp a b \<le> 0) (candidates tn d params)"
    unfolding c by (rule sorted_js_sort[where S = "set ?xs"]) (use total trans in blast)+
  have 2: "sortOrder params \<noteq> Some DESC \<longrightarrow>
       sorted_wrt (\<lambda>a b. \<not> js_lt tn (get_prop b sb) (get_prop a sb)) (candidates tn d params)"
  proof
    assume "sortOrder params \<noteq> Some DESC"
    with s show "sorted_wrt (\<lambda>a b. \<not> js_lt tn (get_prop b sb) (get_prop a sb))
        (candidates tn d params)" by (simp add: compare_items_le)
  qed
  have 3: "sortOrder params = Some DESC \<longrightarrow>
       sorted_wrt (\<lambda>a b. \<not> js_lt tn (get_prop a sb) (get_prop b sb)) (candidates tn d params)"
  proof
    assume "sortOrder params = Some DESC"
    with s show "sorted_wrt (\<lambda>a b. \<not> js_lt tn (get_prop a sb) (get_prop b sb))
        (candidates tn d params)" by (simp add: compare_items_le)
  qed
  have 4: "filter (\<lambda>z. z = a \<or> z = b) (candidates tn d params) = filter (\<lambda>z. z = a \<or> z = b) ?xs"
    if "?cmp a b = 0" for a b
    unfolding c
  proof (rule filter_js_sort)
    fix x y assume "x = a \<or> x = b" "y = a \<or> y = b"
    moreover have "?cmp a a = 0" "?cmp b b = 0" "?cmp b a = 0"
      using that js_lt_asym[of tn "get_prop a sb" "get_prop a sb"]
        js_lt_asym[of tn "get_prop b sb" "get_prop b sb"]
      by (auto simp: compare_items_eq_0)
    ultimately show "?cmp x y \<le> 0" using that by auto
  qed
  have 5: "compare_items tn sb (Some DESC) a b = - compare_items tn sb (Some ASC) a b" for a b
    by (rule compare_items_desc) (simp add: ASC_def DESC_def)
  from 1 2 3 4 5 compare_items_absent[of _ sb _ tn "sortOrder params"] show ?thesis by blast
qed

lemma get_prop_login_ip: "get_prop (login_record i ip) ''ipAddress'' =
   (case ip of Some a \<Rightarrow> VStr a | None \<Rightarrow> VUndefined)"
  by (simp add: get_prop_def own_props_def login_record_def mk_entity_def Object_prototype_def
      split: option.splits)

theorem sort_stage_sorted_and_stable_witness:
  "sortBy (no_params\<lparr>sortBy := Some ''buyerName''\<rparr>) = Some ''buyerName'' \<and>
   ''buyerName'' \<noteq> [] \<and>
   comparable tn0 (map (\<lambda>item. get_prop item ''buyerName'')
     [order ''1'' ''bob'', order ''2'' ''Alice'', order ''3'' ''bob'']) \<and>
   candidates tn0 [order ''1'' ''bob'', order ''2'' ''Alice'', order ''3'' ''bob'']
     (no_params\<lparr>sortBy := Some ''buyerName''\<rparr>)
     = [order ''2'' ''Alice'', order ''1'' ''bob'', order ''3'' ''bob''] \<and>
   sorted_wrt (\<lambda>a b. \<not> js_lt tn0 (get_prop b ''buyerName'') (get_prop a ''buyerName''))
     [order ''2'' ''Alice'', order ''1'' ''bob'', order ''3'' ''bob''] \<and>
   filter (\<lambda>z. z = order ''1'' ''bob'' \<or> z = order ''3'' ''bob'')
     [order ''2'' ''Alice'', order ''1'' ''bob'', order ''3'' ''bob'']
     = filter (\<lambda>z. z = order ''1'' ''bob'' \<or> z = order ''3'' ''bob'')
     [order ''1'' ''bob'', order ''2'' ''Alice'', order ''3'' ''bob'']"
proof -
  let ?d = "[order ''1'' ''bob'', order ''2'' ''Alice'', order ''3'' ''bob'']"
  let ?p = "no_params\<lparr>sortBy := Some ''buyerName''\<rparr>"
  have h1: "sortBy ?p = Some ''buyerName''" by (simp add: no_params_def)
  have h2: "''buyerName'' \<noteq> []" by simp
  have f: "filters_stage tn0 ?p (query_stage ?p ?d) = ?d" "sortOrder ?p \<noteq> Some DESC"
    by (simp_all add: filters_stage_def query_stage_def no_params_def)
  have so: "sortOrder ?p = None" by (simp add: no_params_def)
  have g: "map (\<lambda>item. get_prop item ''buyerName'') ?d = [VStr ''bob'', VStr ''Alice'', VStr ''bob'']"
    by (simp add: get_prop_def own_props_def order_def mk_entity_def)
  have h3: "comparable tn0 (map (\<lambda>item. get_prop item ''buyerName'') ?d)"
    unfolding g by (rule comparable_strings) auto
  have c: "candidates tn0 ?d ?p = [order ''2'' ''Alice'', order ''1'' ''bob'', order ''3'' ''bob'']"
    by (simp add: candidates_def sort_stage_def f js_sort_def compare_items_def
        js_lt_def js_gt_def h1 so g[simplified])
  have z: "compare_items tn0 ''buyerName'' (sortOrder ?p) (order ''1'' ''bob'') (order ''3'' ''bob'') = 0"
    using g by (simp add: compare_items_eq_0 js_lt_def)
  note r = sort_stage_sorted_and_stable[of ?p "''buyerName''" tn0 ?d, OF h1 h2, unfolded f c, OF h3]
  from r f(2) have s: "sorted_wrt (\<lambda>a b. \<not> js_lt tn0 (get_prop b ''buyerName'') (get_prop a ''buyerName''))
     [order ''2'' ''Alice'', order ''1'' ''bob'', order ''3'' ''bob'']" by blast
  from r z have t: "filter (\<lambda>z. z = order ''1'' ''bob'' \<or> z = order ''3'' ''bob'')
     [order ''2'' ''Alice'', order ''1'' ''bob'', order ''3'' ''bob'']
     = filter (\<lambda>z. z = order ''1'' ''bob'' \<or> z = order ''3'' ''bob'') ?d" by blast
  from h1 h2 h3 c s t show ?thesis by blast
qed

text \<open>
  Login records with the origin addresses \<^verbatim>\<open>10.0.0.9\<close>, none and \<^verbatim>\<open>10.0.0.1\<close>,
  sorted by \<^verbatim>\<open>ipAddress\<close>: the absent value compares equal to both strings, the
  result keeps the order of the collection, and the greater address stays before
  the smaller one.
\<close>

theorem absent_value_not_sorted_counterexample:
  "data (search tn0
     [login_record ''r1'' (Some ''10.0.0.9''), login_record ''r2'' None,
      login_record ''r3'' (Some ''10.0.0.1'')]
     (no_params\<lparr>sortBy := Some ''ipAddress''\<rparr>))
   = Some [login_record ''r1'' (Some ''10.0.0.9''), login_record ''r2'' None,
      login_record ''r3'' (Some ''10.0.0.1'')] \<and>
   js_lt tn0 (get_prop (login_record ''r3'' (Some ''10.0.0.1'')) ''ipAddress'')
     (get_prop (login_record ''r1'' (Some ''10.0.0.9'')) ''ipAddress'')"
  by (simp add: search_def candidates_def sort_stage_def filters_stage_def query_stage_def
      no_params_def js_sort_def compare_items_def get_prop_login_ip js_lt_def js_gt_def
      page_slice_def page_of_def limit_of_def js_sub_def js_slice_def slice_index.simps
      to_integer_def Let_def)


text \<open>
  This does not depend on how \<^verbatim>\<open>sort\<close> orders elements under such a comparator:
  no order of these three records is both sorted and keeps the relative order of
  the two pairs that compare equal.
\<close>

lemma filter_eq_ConsD:
  assumes "filter P ys = x # xs"
  shows "\<exists>us vs. ys = us @ x # vs \<and> (\<forall>u\<in>set us. \<not> P u) \<and> P x \<and> filter P vs = xs"
  using assms unfolding filter_eq_Cons_iff by metis

lemma first_occurrence_unique:
  assumes "x \<notin> set xs" "x \<notin> set xs'" "xs @ x # ys = xs' @ x # ys'"
  shows "xs = xs' \<and> ys = ys'"
  using assms
proof (induction xs arbitrary: xs')
  case Nil
  then show ?case by (cases xs') auto
next
  case (Cons a xs)
  then show ?case by (cases xs') auto
qed

lemma no_sorted_stable_order:
  assumes ne: "r1 \<noteq> r2" "r2 \<noteq> r3"
    and gt: "\<not> cmp r1 r3 \<le> (0::int)"
    and s: "sorted_wrt (\<lambda>a b. cmp a b \<le> 0) ys"
    and f12: "filter (\<lambda>z. z = r1 \<or> z = r2) ys = [r1, r2]"
    and f23: "filter (\<lambda>z. z = r2 \<or> z = r3) ys = [r2, r3]"
  shows False
proof -
  from filter_eq_ConsD[OF f12]
  obtain us vs where a: "ys = us @ r1 # vs" "\<forall>u\<in>set us. \<not> (u = r1 \<or> u = r2)"
    "filter (\<lambda>z. z = r1 \<or> z = r2) vs = [r2]"
    by blast
  from filter_eq_ConsD[OF a(3)]
  obtain vs1 vs2 where b: "vs = vs1 @ r2 # vs2" "\<forall>u\<in>set vs1. \<not> (u = r1 \<or> u = r2)"
    by blast
  from filter_eq_ConsD[OF f23]
  obtain us' ws where c: "ys = us' @ r2 # ws" "\<forall>u\<in>set us'. \<not> (u = r2 \<or> u = r3)"
    "filter (\<lambda>z. z = r2 \<or> z = r3) ws = [r3]"
    by blast
  have "r3 \<in> set (filter (\<lambda>z. z = r2 \<or> z = r3) ws)" unfolding c(3) by simp
  then have r3: "r3 \<in> set ws" by simp
  have e: "(us @ r1 # vs1) @ r2 # vs2 = us' @ r2 # ws" using a(1) b(1) c(1) by simp
  have n1: "r2 \<notin> set (us @ r1 # vs1)" using a(2) b(2) ne by auto
  have n2: "r2 \<notin> set us'" using c(2) by auto
  have "vs2 = ws" using first_occurrence_unique[OF n1 n2 e] by simp
  with r3 a(1) b(1) have "ys = us @ r1 # vs" "r3 \<in> set vs" by simp_all
  with s have "cmp r1 r3 \<le> 0" by (simp add: sorted_wrt_append)
  with gt show False by simp
qed

lemma counterexample_has_no_sorted_stable_order:
  "\<not> (sorted_wrt (\<lambda>a b. compare_items tn0 ''ipAddress'' None a b \<le> 0) ys \<and>
      filter (\<lambda>z. z = login_record ''r1'' (Some ''10.0.0.9'') \<or> z = login_record ''r2'' None) ys
        = [login_record ''r1'' (Some ''10.0.0.9''), login_record ''r2'' None] \<and>
      filter (\<lambda>z. z = login_record ''r2'' None \<or> z = login_record ''r3'' (Some ''10.0.0.1'')) ys
        = [login_record ''r2'' None, login_record ''r3'' (Some ''10.0.0.1'')])"
proof
  assume a: "sorted_wrt (\<lambda>a b. compare_items tn0 ''ipAddress'' None a b \<le> 0) ys \<and>
      filter (\<lambda>z. z = login_record ''r1'' (Some ''10.0.0.9'') \<or> z = login_record ''r2'' None) ys
        = [login_record ''r1'' (Some ''10.0.0.9''), login_record ''r2'' None] \<and>
      filter (\<lambda>z. z = login_record ''r2'' None \<or> z = login_record ''r3'' (Some ''10.0.0.1'')) ys
        = [login_record ''r2'' None, login_record ''r3'' (Some ''10.0.0.1'')]"
  have ne: "login_record ''r1'' (Some ''10.0.0.9'') \<noteq> login_record ''r2'' None"
    "login_record ''r2'' None \<noteq> login_record ''r3'' (Some ''10.0.0.1'')"
    by (simp_all add: login_record_def mk_entity_def)
  have gt: "\<not> compare_items tn0 ''ipAddress'' None (login_record ''r1'' (Some ''10.0.0.9''))
      (login_record ''r3'' (Some ''10.0.0.1'')) \<le> 0"
    by (simp add: compare_items_le get_prop_login_ip js_lt_def)
  from a show False
    by (intro no_sorted_stable_order[where cmp = "compare_items tn0 ''ipAddress'' None"
          and ys = ys, OF ne gt]) simp_all
qed

section \<open>Order numbers: the format\<close>

lemma char_of_digit:
  "char_of (48::nat) = CHR ''0''" "char_of (49::nat) = CHR ''1''" "char_of (50::nat) = CHR ''2''"
  "char_of (51::nat) = CHR ''3''" "char_of (52::nat) = CHR ''4''" "char_of (53::nat) = CHR ''5''"
  "char_of (54::nat) = CHR ''6''" "char_of (55::nat) = CHR ''7''" "char_of (56::nat) = CHR ''8''"
  "char_of (57::nat) = CHR ''9''"
  by code_simp+

lemma int_toString_clock: "int_toString 1762153200000 = ''1762153200000''"
  by (simp add: int_toString_def char_of_digit)

lemma int_toString_small: "int_toString 1234567 = ''1234567''"
  by (simp add: int_toString_def char_of_digit)

text \<open>
  With a clock of the year 2025 and a random number whose base-36 text is long,
  the order number has the format.
\<close>

lemma order_number_typical:
  "generateOrderNumber 1762153200000 ''0.4fzyo82mvyr'' = ''ORD-53200000-4FZY'' \<and>
   order_number_format (generateOrderNumber 1762153200000 ''0.4fzyo82mvyr'')"
  by (simp add: generateOrderNumber_def int_toString_clock slice_last8_def substring_2_6_def
       toUpperCase_def upper_char_def order_number_format_def is_digit_def is_upper_alnum_def)

text \<open>
  C9. The claim is that every order number has the format. For
  \<^verbatim>\<open>Math.random() = 0.5\<close> the text \<^verbatim>\<open>(0.5).toString(36)\<close> is \<^verbatim>\<open>0.i\<close>, and
  \<^verbatim>\<open>substring(2, 6)\<close> of it is the single character \<^verbatim>\<open>i\<close>: the order number has a
  suffix of one character, not four.
\<close>

theorem order_number_short_random_suffix:
  "generateOrderNumber 1762153200000 ''0.i'' = ''ORD-53200000-I'' \<and>
   \<not> order_number_format (generateOrderNumber 1762153200000 ''0.i'')"
  by (simp add: generateOrderNumber_def int_toString_clock slice_last8_def substring_2_6_def
       toUpperCase_def upper_char_def order_number_format_def)

text \<open>
  The time part has the same defect: \<^verbatim>\<open>slice(-8)\<close> of a clock reading with fewer
  than eight digits is shorter than eight digits.
\<close>

lemma order_number_short_timestamp:
  "generateOrderNumber 1234567 ''0.4fzyo82mvyr'' = ''ORD-1234567-4FZY'' \<and>
   \<not> order_number_format (generateOrderNumber 1234567 ''0.4fzyo82mvyr'')"
  by (simp add: generateOrderNumber_def int_toString_small slice_last8_def substring_2_6_def
       toUpperCase_def upper_char_def order_number_format_def)

section \<open>Properties of the store\<close>

lemma new_array_simps [simp]:
  "fst (new_array xs s) = fresh s"
  "arrays (snd (new_array xs s)) = (arrays s)(fresh s := xs)"
  "fresh (snd (new_array xs s)) = Suc (fresh s)"
  "this_data (snd (new_array xs s)) = this_data s"
  "objects (snd (new_array xs s)) = objects s"
  by (simp_all add: new_array_def)

lemma local_new_array: "local_to s (new_array xs s)"
  by (simp add: local_to_def new_array_def)

lemma local_query_stage: "local_to s r \<Longrightarrow> local_to s (svc_query_stage params r)"
  by (cases r) (auto simp: local_to_def svc_query_stage_def new_array_def split: option.splits)

lemma local_filters_stage: "local_to s r \<Longrightarrow> local_to s (svc_filters_stage tn params r)"
  by (cases r) (auto simp: local_to_def svc_filters_stage_def new_array_def split: option.splits)

lemma local_sort_stage: "local_to s r \<Longrightarrow> local_to s (svc_sort_stage tn params r)"
  by (cases r) (auto simp: local_to_def svc_sort_stage_def split: option.splits)

lemma local_new_array_after:
  "local_to s (fd, s') \<Longrightarrow> local_to s (new_array xs s')"
  by (auto simp: local_to_def new_array_def)

lemma svc_search_local:
  "\<exists>fd. local_to s (fd, snd (svc_search tn params s))"
proof -
  obtain fd s' where r: "svc_sort_stage tn params
              (svc_filters_stage tn params
                 (svc_query_stage params (new_array (stored s) s))) = (fd, s')"
    by (cases "svc_sort_stage tn params
              (svc_filters_stage tn params
                 (svc_query_stage params (new_array (stored s) s)))") blast
  have "local_to s (fd, s')"
    unfolding r[symmetric]
    by (intro local_sort_stage local_filters_stage local_query_stage local_new_array)
  then have "local_to s (new_array (page_slice params (arrays s' fd)) s')"
    by (rule local_new_array_after)
  moreover have "snd (svc_search tn params s) = snd (new_array (page_slice params (arrays s' fd)) s')"
    by (simp add: svc_search_def r Let_def split: prod.splits)
  ultimately show ?thesis
    by (metis prod.collapse)
qed

lemma local_stored: "store_ok s \<Longrightarrow> local_to s (fd, s') \<Longrightarrow> stored s' = stored s \<and> store_ok s' \<and> objects s' = objects s \<and> this_data s' = this_data s"
  by (auto simp: local_to_def store_ok_def stored_def)

lemma store_ok_new: "store_ok (svc_new objs)"
  by (simp add: store_ok_def svc_new_def)

lemma findAll_local: "local_to s (svc_findAll s)"
  by (simp add: svc_findAll_def local_new_array)

lemma findBy_local: "local_to s (svc_findBy fld v s)"
  by (simp add: svc_findBy_def local_new_array)

lemma search_frame:
  assumes "store_ok s"
  shows "stored (snd (svc_search tn params s)) = stored s" "store_ok (snd (svc_search tn params s))"
    "objects (snd (svc_search tn params s)) = objects s"
    "this_data (snd (svc_search tn params s)) = this_data s"
  using svc_search_local[of s tn params] local_stored[OF assms] by blast+

lemma findAll_frame:
  assumes "store_ok s"
  shows "stored (snd (svc_findAll s)) = stored s" "store_ok (snd (svc_findAll s))"
    "objects (snd (svc_findAll s)) = objects s"
    "this_data (snd (svc_findAll s)) = this_data s"
  using findAll_local[of s] local_stored[OF assms, of "fst (svc_findAll s)" "snd (svc_findAll s)"]
  by simp_all

lemma findBy_frame:
  assumes "store_ok s"
  shows "stored (snd (svc_findBy fld v s)) = stored s" "store_ok (snd (svc_findBy fld v s))"
    "objects (snd (svc_findBy fld v s)) = objects s"
    "this_data (snd (svc_findBy fld v s)) = this_data s"
  using findBy_local[of s fld v]
    local_stored[OF assms, of "fst (svc_findBy fld v s)" "snd (svc_findBy fld v s)"]
  by simp_all

lemma add_frame:
  "stored (svc_add item s) = stored s @ [item]" "store_ok s \<Longrightarrow> store_ok (svc_add item s)"
  "objects (svc_add item s) = objects s"
  by (simp_all add: svc_add_def stored_def store_ok_def)

lemma clear_frame:
  "stored (svc_clear s) = []" "store_ok (svc_clear s)" "objects (svc_clear s) = objects s"
  by (simp_all add: svc_clear_def stored_def store_ok_def new_array_def)

lemma store_ok_exec: "store_ok s \<Longrightarrow> store_ok (exec tn c s)"
  by (cases c) (simp_all add: search_frame findAll_frame findBy_frame add_frame clear_frame)

lemma objects_exec: "store_ok s \<Longrightarrow> objects (exec tn c s) = objects s"
  by (cases c) (simp_all add: search_frame findAll_frame findBy_frame add_frame clear_frame)

lemma run_append: "run tn (cs @ ds) s = run tn ds (run tn cs s)"
  by (induction cs arbitrary: s) auto

lemma store_ok_run: "store_ok s \<Longrightarrow> store_ok (run tn cs s)"
  by (induction cs arbitrary: s) (auto simp: store_ok_exec)

lemma objects_run: "store_ok s \<Longrightarrow> objects (run tn cs s) = objects s"
  by (induction cs arbitrary: s) (auto simp: store_ok_exec objects_exec)

lemma count_exec:
  assumes "store_ok s"
  shows "svc_count (exec tn c s) =
     (if c = Clear then 0 else if is_Add c then Suc (svc_count s) else svc_count s)"
  using assms
  by (cases c) (simp_all add: svc_count_def search_frame findAll_frame findBy_frame add_frame clear_frame)

lemma adds_since_clear_snoc:
  "adds_since_clear (cs @ [c]) =
     (if c = Clear then 0 else if is_Add c then Suc (adds_since_clear cs) else adds_since_clear cs)"
  by (simp add: adds_since_clear_def)

lemma count_run: "svc_count (run tn cs (svc_new objs)) = adds_since_clear cs"
proof (induction cs rule: rev_induct)
  case Nil
  show ?case by (simp add: adds_since_clear_def svc_count_def stored_def svc_new_def)
next
  case (snoc c cs)
  have "store_ok (run tn cs (svc_new objs))" by (simp add: store_ok_run store_ok_new)
  then show ?case
    by (simp add: run_append count_exec adds_since_clear_snoc snoc)
qed

text \<open>
  C8. After any sequence of calls on a new service, \<^verbatim>\<open>count()\<close> is the number of
  \<^verbatim>\<open>add\<close> calls since the last \<^verbatim>\<open>clear()\<close>, or since construction. In any state so
  reached, \<^verbatim>\<open>search\<close>, \<^verbatim>\<open>findAll\<close>, \<^verbatim>\<open>findBy\<close>, \<^verbatim>\<open>findById\<close> and \<^verbatim>\<open>count\<close> leave
  the stored sequence as it is, elements and order (\<^verbatim>\<open>search\<close> sorts a copy); and no
  call changes an entity.
\<close>

theorem only_add_and_clear_change_the_collection:
  "svc_count (run tn cs (svc_new objs)) = adds_since_clear cs \<and>
   stored (snd (svc_search tn params (run tn cs (svc_new objs)))) = stored (run tn cs (svc_new objs)) \<and>
   stored (snd (svc_findAll (run tn cs (svc_new objs)))) = stored (run tn cs (svc_new objs)) \<and>
   stored (snd (svc_findBy fld v (run tn cs (svc_new objs)))) = stored (run tn cs (svc_new objs)) \<and>
   stored (exec tn (FindById i) (run tn cs (svc_new objs))) = stored (run tn cs (svc_new objs)) \<and>
   stored (exec tn Count (run tn cs (svc_new objs))) = stored (run tn cs (svc_new objs)) \<and>
   objects (run tn cs (svc_new objs)) = objs"
proof -
  have w: "store_ok (run tn cs (svc_new objs))" by (simp add: store_ok_run store_ok_new)
  have "objects (run tn cs (svc_new objs)) = objects (svc_new objs)"
    by (rule objects_run[OF store_ok_new])
  then have "objects (run tn cs (svc_new objs)) = objs"
    by (simp add: svc_new_def)
  with w count_run[of tn cs objs] show ?thesis
    by (simp add: search_frame findAll_frame findBy_frame)
qed


theorem only_add_and_clear_change_the_collection_witness:
  "svc_count (run tn0 [Add 0, Add 1, Clear, Add 2, Search no_params, FindAll]
     (svc_new (\<lambda>a. order ''o1'' ''Alice''))) = 1 \<and>
   stored (snd (svc_search tn0 no_params (run tn0 [Add 0, Add 1, Clear, Add 2]
     (svc_new (\<lambda>a. order ''o1'' ''Alice''))))) = [2] \<and>
   stored (snd (svc_findAll (run tn0 [Add 0, Add 1, Clear, Add 2]
     (svc_new (\<lambda>a. order ''o1'' ''Alice''))))) = [2]"
proof -
  let ?o = "\<lambda>a::addr. order ''o1'' ''Alice''"
  have s: "stored (run tn0 [Add 0, Add 1, Clear, Add 2] (svc_new ?o)) = [2]"
    by (simp add: svc_add_def svc_clear_def svc_new_def new_array_def stored_def)
  have a: "adds_since_clear [Add 0, Add 1, Clear, Add 2, Search no_params, FindAll] = 1"
    by (simp add: adds_since_clear_def)
  show ?thesis
    using only_add_and_clear_change_the_collection[of tn0
        "[Add 0, Add 1, Clear, Add 2, Search no_params, FindAll]" ?o no_params]
      only_add_and_clear_change_the_collection[of tn0 "[Add 0, Add 1, Clear, Add 2]" ?o no_params]
    unfolding a s by blast
qed

subsection \<open>Refinement\<close>










subsection \<open>Stores that differ in one array\<close>
















end
